theory Spec2Isabelle
  imports Main
begin

section \<open>Python strings\<close>

text \<open>
  A message is a Python \<open>str\<close>. It is modelled as a \<open>string\<close> whose characters are the
  code points 0..255 (Latin-1); \<open>code\<close> reads the code point. The predicates below are
  Python's \<open>str.isupper\<close>, \<open>str.islower\<close>, \<open>str.isspace\<close> and the regular expression
  classes \<open>\s\<close> and \<open>\d\<close> on that range.
\<close>

definition code :: "char \<Rightarrow> int" where
  "code c = of_char c"

definition isupper :: "char \<Rightarrow> bool" where
  "isupper c =
     ((65 \<le> code c \<and> code c \<le> 90) \<or> (192 \<le> code c \<and> code c \<le> 222 \<and> code c \<noteq> 215))"

definition islower :: "char \<Rightarrow> bool" where
  "islower c =
     ((97 \<le> code c \<and> code c \<le> 122) \<or> (224 \<le> code c \<and> code c \<le> 254 \<and> code c \<noteq> 247))"

definition isspace :: "char \<Rightarrow> bool" where
  "isspace c =
     ((9 \<le> code c \<and> code c \<le> 13) \<or> (28 \<le> code c \<and> code c \<le> 32) \<or> code c = 133 \<or> code c = 160)"

definition isdigit :: "char \<Rightarrow> bool" where
  "isdigit c = (48 \<le> code c \<and> code c \<le> 57)"

definition lower_char :: "char \<Rightarrow> char" where
  "lower_char c = (if isupper c then char_of (code c + 32) else c)"

definition upper_char :: "char \<Rightarrow> char" where
  "upper_char c = (if islower c then char_of (code c - 32) else c)"

text \<open>\<open>s.lower()\<close> and \<open>s.strip()\<close>.\<close>

definition lower :: "string \<Rightarrow> string" where
  "lower s = map lower_char s"

definition strip :: "string \<Rightarrow> string" where
  "strip s = rev (dropWhile isspace (rev (dropWhile isspace s)))"

text \<open>\<open>s.startswith(p)\<close> and the substring test \<open>sub in s\<close>.\<close>

fun startswith :: "string \<Rightarrow> string \<Rightarrow> bool" where
  "startswith s [] = True"
| "startswith [] (p # ps) = False"
| "startswith (c # cs) (p # ps) = (c = p \<and> startswith cs ps)"

fun contains :: "string \<Rightarrow> string \<Rightarrow> bool" where
  "contains [] sub = (sub = [])"
| "contains (c # cs) sub = (startswith (c # cs) sub \<or> contains cs sub)"

text \<open>
  \<open>s.replace(old, new)\<close>: every non-overlapping occurrence of \<open>old\<close>, from the left.
  With an empty \<open>old\<close> Python inserts \<open>new\<close> before every character and at the end.
\<close>

function replace_from :: "string \<Rightarrow> string \<Rightarrow> string \<Rightarrow> string" where
  "replace_from [] old new = []"
| "replace_from (c # cs) old new =
     (if old \<noteq> [] \<and> startswith (c # cs) old
      then new @ replace_from (drop (length old) (c # cs)) old new
      else c # replace_from cs old new)"
  by pat_completeness auto
termination
  by (relation "measure (\<lambda>(s, old, new). length s)") auto

definition replace :: "string \<Rightarrow> string \<Rightarrow> string \<Rightarrow> string" where
  "replace s old new =
     (if old = [] then new @ concat (map (\<lambda>c. c # new) s) else replace_from s old new)"

text \<open>
  \<open>s.split(sep)\<close> for a non-empty separator (the only call passes the literal
  \<open>'and'\<close>): \<open>cur\<close> is the segment being read.
\<close>

function split_from :: "string \<Rightarrow> string \<Rightarrow> string \<Rightarrow> string list" where
  "split_from cur [] sep = [cur]"
| "split_from cur (c # cs) sep =
     (if sep \<noteq> [] \<and> startswith (c # cs) sep
      then cur # split_from [] (drop (length sep) (c # cs)) sep
      else split_from (cur @ [c]) cs sep)"
  by pat_completeness auto
termination
  by (relation "measure (\<lambda>(cur, s, sep). length s)") auto

definition split :: "string \<Rightarrow> string \<Rightarrow> string list" where
  "split s sep = split_from [] s sep"

text \<open>
  \<open>int(s)\<close> on a string of decimal digits. CPython refuses a string of more than
  \<open>sys.int_max_str_digits\<close> (4300 by default) digits with a ValueError.
\<close>

definition digit_value :: "char \<Rightarrow> int" where
  "digit_value c = code c - 48"

definition int_max_str_digits :: nat where
  "int_max_str_digits = 4300"

definition py_int :: "string \<Rightarrow> int option" where
  "py_int s =
     (if s = [] \<or> \<not> list_all isdigit s \<or> int_max_str_digits < length s then None
      else Some (foldl (\<lambda>a c. 10 * a + digit_value c) 0 s))"

section \<open>Regular expressions\<close>

text \<open>
  The fragment of Python's \<open>re\<close> syntax that the patterns of the repository use.
  \<open>Str\<close> is a run of literal characters, \<open>One\<close> a character class, \<open>Many1\<close> and
  \<open>Many1Lazy\<close> the quantifiers \<open>+\<close> and \<open>+?\<close> on a class, \<open>Opt\<close> the greedy \<open>?\<close>,
  \<open>Grp n\<close> the n-th capturing group and \<open>Eos\<close> the anchor \<open>$\<close>.
\<close>

datatype citem = Rng char char | Ch char | Space | Digit

datatype cset = Pos "citem list" | Neg "citem list"

datatype rx = Str string | One cset | Many1 cset | Many1Lazy cset
  | Seq rx rx | Alt rx rx | Opt rx | Grp nat rx | Eos

fun in_citem :: "citem \<Rightarrow> char \<Rightarrow> bool" where
  "in_citem (Rng lo hi) c = (code lo \<le> code c \<and> code c \<le> code hi)"
| "in_citem (Ch d) c = (c = d)"
| "in_citem Space c = isspace c"
| "in_citem Digit c = isdigit c"

text \<open>
  \<open>ic\<close> is the flag \<open>re.IGNORECASE\<close>: a class then also holds the characters whose
  other case it holds, and a literal is compared after lowercasing.
\<close>

definition in_items :: "bool \<Rightarrow> citem list \<Rightarrow> char \<Rightarrow> bool" where
  "in_items ic its c =
     list_ex (\<lambda>i. in_citem i c \<or> (ic \<and> (in_citem i (lower_char c) \<or> in_citem i (upper_char c)))) its"

fun in_cset :: "bool \<Rightarrow> cset \<Rightarrow> char \<Rightarrow> bool" where
  "in_cset ic (Pos its) c = in_items ic its c"
| "in_cset ic (Neg its) c = (\<not> in_items ic its c)"

definition char_eq :: "bool \<Rightarrow> char \<Rightarrow> char \<Rightarrow> bool" where
  "char_eq ic p c = (if ic then lower_char c = lower_char p else c = p)"

type_synonym captures = "nat \<Rightarrow> string option"

fun str_match :: "bool \<Rightarrow> string \<Rightarrow> string \<Rightarrow> string option" where
  "str_match ic [] s = Some s"
| "str_match ic (p # ps) [] = None"
| "str_match ic (p # ps) (c # cs) = (if char_eq ic p c then str_match ic ps cs else None)"

text \<open>
  The backtracking matcher. \<open>rmatch ic r (s, g)\<close> lists, in the order in which
  Python's engine tries them, the ways \<open>r\<close> can match a prefix of \<open>s\<close>: each is the
  text left over and the groups captured so far. A greedy quantifier tries the longest
  run first, a lazy one the shortest; an alternation tries its branches left to right.
  \<open>$\<close> matches at the end of the text and before a final newline.
\<close>

fun rmatch :: "bool \<Rightarrow> rx \<Rightarrow> string \<times> captures \<Rightarrow> (string \<times> captures) list" where
  "rmatch ic (Str p) (s, g) = (case str_match ic p s of None \<Rightarrow> [] | Some s' \<Rightarrow> [(s', g)])"
| "rmatch ic (One k) (s, g) =
     (case s of [] \<Rightarrow> [] | c # cs \<Rightarrow> if in_cset ic k c then [(cs, g)] else [])"
| "rmatch ic (Many1 k) (s, g) =
     map (\<lambda>n. (drop n s, g)) (rev [1 ..< Suc (length (takeWhile (in_cset ic k) s))])"
| "rmatch ic (Many1Lazy k) (s, g) =
     map (\<lambda>n. (drop n s, g)) [1 ..< Suc (length (takeWhile (in_cset ic k) s))]"
| "rmatch ic (Seq a b) st = concat (map (rmatch ic b) (rmatch ic a st))"
| "rmatch ic (Alt a b) st = rmatch ic a st @ rmatch ic b st"
| "rmatch ic (Opt a) st = rmatch ic a st @ [st]"
| "rmatch ic (Grp n a) (s, g) =
     map (\<lambda>(s', g'). (s', g'(n \<mapsto> take (length s - length s') s))) (rmatch ic a (s, g))"
| "rmatch ic Eos (s, g) = (if s = [] \<or> s = [CHR 0x0A] then [(s, g)] else [])"

fun seqs :: "rx list \<Rightarrow> rx" where
  "seqs [] = Str []"
| "seqs [r] = r"
| "seqs (r # rs) = Seq r (seqs rs)"

fun alts :: "rx list \<Rightarrow> rx" where
  "alts [] = One (Pos [])"
| "alts [r] = r"
| "alts (r # rs) = Alt r (alts rs)"

text \<open>The number of capturing groups of a pattern: \<open>len(match.groups())\<close>.\<close>

fun ngroups :: "rx \<Rightarrow> nat" where
  "ngroups (Seq a b) = ngroups a + ngroups b"
| "ngroups (Alt a b) = ngroups a + ngroups b"
| "ngroups (Opt a) = ngroups a"
| "ngroups (Grp n a) = Suc (ngroups a)"
| "ngroups r = 0"

text \<open>
  A match object: the text after the match, the captured groups (\<open>None\<close> for a group
  that took no part) and the number of groups of the pattern.
\<close>

record match =
  rest :: string
  groups :: captures
  group_count :: nat

definition mk_match :: "rx \<Rightarrow> string \<times> captures \<Rightarrow> match" where
  "mk_match r m = \<lparr>rest = fst m, groups = snd m, group_count = ngroups r\<rparr>"

text \<open>\<open>re.search\<close>: the first way to match at the leftmost position that has one.\<close>

fun search :: "bool \<Rightarrow> rx \<Rightarrow> string \<Rightarrow> match option" where
  "search ic r [] =
     (case rmatch ic r ([], Map.empty) of [] \<Rightarrow> None | m # _ \<Rightarrow> Some (mk_match r m))"
| "search ic r (c # cs) =
     (case rmatch ic r (c # cs, Map.empty) of [] \<Rightarrow> search ic r cs | m # _ \<Rightarrow> Some (mk_match r m))"

text \<open>
  \<open>re.sub(r, '', s)\<close>: delete every non-overlapping match, from the left. After an
  empty match the next character is copied.
\<close>

function sub_delete :: "rx \<Rightarrow> string \<Rightarrow> string" where
  "sub_delete r [] = []"
| "sub_delete r (c # cs) =
     (case rmatch False r (c # cs, Map.empty) of
        [] \<Rightarrow> c # sub_delete r cs
      | m # _ \<Rightarrow>
          if length (fst m) < length (c # cs) then sub_delete r (fst m)
          else c # sub_delete r cs)"
  by pat_completeness auto
termination
  by (relation "measure (\<lambda>(r, s). length s)") auto

section \<open>The memory extractor\<close>

subsection \<open>Personal facts\<close>

datatype py_error = AttributeError | ValueError string

text \<open>
  The dictionary \<open>facts\<close> of \<open>extract_personal_facts\<close>. A scalar entry is \<open>None\<close> until
  a message sets it. In the returned dictionary a key is absent when its field is
  \<open>None\<close> or the empty list here.
\<close>

record facts =
  name :: "string option"
  city :: "string option"
  location :: "string option"
  job_role :: "string option"
  company :: "string option"
  birthday :: "string option"
  age :: "int option"
  allergies :: "string list"
  dietary_preferences :: "string list"
  other_facts :: "string list"

definition initial_facts :: facts where
  "initial_facts = \<lparr>name = None, city = None, location = None, job_role = None,
     company = None, birthday = None, age = None, allergies = [],
     dietary_preferences = [], other_facts = []\<rparr>"

definition upper_AZ :: cset where
  "upper_AZ = Pos [Rng CHR ''A'' CHR ''Z'']"

definition lower_az :: cset where
  "lower_az = Pos [Rng CHR ''a'' CHR ''z'']"

definition letters_or_space :: cset where
  "letters_or_space = Pos [Rng CHR ''a'' CHR ''z'', Rng CHR ''A'' CHR ''Z'', Space]"

definition lower_or_space :: cset where
  "lower_or_space = Pos [Rng CHR ''a'' CHR ''z'', Space]"

text \<open>\<open>([A-Z][a-z]+)\<close>\<close>

definition capitalized_word :: rx where
  "capitalized_word = Grp 1 (Seq (One upper_AZ) (Many1 lower_az))"

definition name_patterns :: "rx list" where
  "name_patterns =
     [Seq (Str ''my name is '') capitalized_word,
      Seq (Str ''i'm '') capitalized_word,
      Seq (Str ''i am '') capitalized_word,
      Seq (Str ''name is '') capitalized_word]"

text \<open>\<open>([A-Z][a-zA-Z\s]+)\<close> as group \<open>n\<close>\<close>

definition capitalized_phrase :: "nat \<Rightarrow> rx" where
  "capitalized_phrase n = Grp n (Seq (One upper_AZ) (Many1 letters_or_space))"

definition location_patterns :: "rx list" where
  "location_patterns =
     [Seq (Str ''from '') (capitalized_phrase 1),
      Seq (Str ''live in '') (capitalized_phrase 1),
      seqs [Str ''in '', capitalized_phrase 1, Str '','']]"

text \<open>\<open>(?:a |an )?([a-z\s]+) (?:at|for) ([A-Z][a-zA-Z\s]+)\<close>\<close>

definition role_at_company :: rx where
  "role_at_company =
     seqs [Opt (Alt (Str ''a '') (Str ''an '')), Grp 1 (Many1 lower_or_space), Str '' '',
           Alt (Str ''at'') (Str ''for''), Str '' '', capitalized_phrase 2]"

definition job_patterns :: "rx list" where
  "job_patterns =
     [Seq (Str ''work as '') role_at_company,
      Seq (Str ''i'm '') role_at_company,
      Seq (Str ''i am '') role_at_company]"

text \<open>\<open>([A-Z][a-z]+\s\d{1,2}(?:st|nd|rd|th)?,?\s\d{4})\<close>\<close>

definition date_group :: rx where
  "date_group =
     Grp 1 (seqs [One upper_AZ, Many1 lower_az, One (Pos [Space]),
                  One (Pos [Digit]), Opt (One (Pos [Digit])),
                  Opt (alts [Str ''st'', Str ''nd'', Str ''rd'', Str ''th'']),
                  Opt (Str '',''), One (Pos [Space]),
                  One (Pos [Digit]), One (Pos [Digit]), One (Pos [Digit]), One (Pos [Digit])])"

definition birthday_patterns :: "rx list" where
  "birthday_patterns =
     [seqs [Str ''birthday is '', Opt (Str ''on ''), date_group],
      seqs [Str ''born '', Opt (Str ''on ''), date_group]]"

text \<open>\<open>(\d+)\<close>\<close>

definition number_group :: rx where
  "number_group = Grp 1 (Many1 (Pos [Digit]))"

definition age_patterns :: "rx list" where
  "age_patterns =
     [Seq (Str ''turning '') number_group,
      Seq (Str ''i'm '') number_group,
      Seq (Str ''i am '') number_group,
      Seq (Str ''age of '') number_group]"

text \<open>\<open>allergic to ([^.]+)\<close>\<close>

definition allergy_pattern :: rx where
  "allergy_pattern = Seq (Str ''allergic to '') (Grp 1 (Many1 (Neg [Ch CHR ''.''])))"

text \<open>
  The loop \<open>for pattern in patterns: match = re.search(pattern, message,
  re.IGNORECASE); if match: ...; break\<close>: the match of the first pattern that matches.
\<close>

fun first_match :: "rx list \<Rightarrow> string \<Rightarrow> match option" where
  "first_match [] message = None"
| "first_match (pattern # patterns) message =
     (case search True pattern message of
        None \<Rightarrow> first_match patterns message
      | Some m \<Rightarrow> Some m)"

text \<open>Python's truth value of a dictionary entry: \<open>None\<close>, \<open>''\<close> and \<open>0\<close> are false.\<close>

fun truthy_str :: "string option \<Rightarrow> bool" where
  "truthy_str None = False"
| "truthy_str (Some s) = (s \<noteq> [])"

fun truthy_int :: "int option \<Rightarrow> bool" where
  "truthy_int None = False"
| "truthy_int (Some n) = (n \<noteq> 0)"

text \<open>\<open>match.group(n).strip()\<close>: a group that took no part is \<open>None\<close>, which has no \<open>strip\<close>.\<close>

definition group_strip :: "match \<Rightarrow> nat \<Rightarrow> py_error + string" where
  "group_strip m n = (case groups m n of None \<Rightarrow> Inl AttributeError | Some s \<Rightarrow> Inr (strip s))"

definition extract_name :: "facts \<Rightarrow> string \<Rightarrow> facts" where
  "extract_name f message =
     (if truthy_str (name f) then f
      else case first_match name_patterns message of
             None \<Rightarrow> f
           | Some m \<Rightarrow> f\<lparr>name := groups m 1\<rparr>)"

text \<open>
  The location loop leaves (\<open>break\<close>) only when a candidate passes the filter; a
  rejected candidate lets the next pattern try the same message.
\<close>

fun scan_location :: "rx list \<Rightarrow> string \<Rightarrow> py_error + string option" where
  "scan_location [] message = Inr None"
| "scan_location (pattern # patterns) message =
     (case search True pattern message of
        None \<Rightarrow> scan_location patterns message
      | Some m \<Rightarrow>
          (case group_strip m 1 of
             Inl e \<Rightarrow> Inl e
           | Inr loc \<Rightarrow>
               if loc \<notin> set [''The'', ''A'', ''An''] \<and> 2 < length loc then Inr (Some loc)
               else scan_location patterns message))"

definition extract_location :: "facts \<Rightarrow> string \<Rightarrow> py_error + facts" where
  "extract_location f message =
     (if truthy_str (city f) then Inr f
      else case scan_location location_patterns message of
             Inl e \<Rightarrow> Inl e
           | Inr None \<Rightarrow> Inr f
           | Inr (Some loc) \<Rightarrow> Inr (f\<lparr>city := Some loc, location := Some loc\<rparr>))"

definition extract_job :: "facts \<Rightarrow> string \<Rightarrow> py_error + facts" where
  "extract_job f message =
     (if truthy_str (job_role f) then Inr f
      else case first_match job_patterns message of
             None \<Rightarrow> Inr f
           | Some m \<Rightarrow>
               (case group_strip m 1 of
                  Inl e \<Rightarrow> Inl e
                | Inr role \<Rightarrow>
                    if 1 < group_count m
                    then (case group_strip m 2 of
                            Inl e \<Rightarrow> Inl e
                          | Inr employer \<Rightarrow> Inr (f\<lparr>job_role := Some role, company := Some employer\<rparr>))
                    else Inr (f\<lparr>job_role := Some role\<rparr>)))"

definition extract_birthday :: "facts \<Rightarrow> string \<Rightarrow> py_error + facts" where
  "extract_birthday f message =
     (if truthy_str (birthday f) then Inr f
      else case first_match birthday_patterns message of
             None \<Rightarrow> Inr f
           | Some m \<Rightarrow>
               (case group_strip m 1 of
                  Inl e \<Rightarrow> Inl e
                | Inr d \<Rightarrow> Inr (f\<lparr>birthday := Some d\<rparr>)))"

text \<open>
  \<open>try: facts['age'] = int(match.group(1)) except: pass\<close>: whatever \<open>int\<close> raises is
  swallowed and the field keeps its value.
\<close>

definition parse_age :: "match \<Rightarrow> int option" where
  "parse_age m = (case groups m 1 of None \<Rightarrow> None | Some ds \<Rightarrow> py_int ds)"

definition extract_age :: "facts \<Rightarrow> string \<Rightarrow> facts" where
  "extract_age f message =
     (if truthy_int (age f) then f
      else case first_match age_patterns message of
             None \<Rightarrow> f
           | Some m \<Rightarrow> (case parse_age m of None \<Rightarrow> f | Some n \<Rightarrow> f\<lparr>age := Some n\<rparr>))"

definition extract_allergies :: "facts \<Rightarrow> string \<Rightarrow> py_error + facts" where
  "extract_allergies f message_lower =
     (if contains message_lower ''allergic''
      then (case search False allergy_pattern message_lower of
              None \<Rightarrow> Inr f
            | Some m \<Rightarrow>
                (case groups m 1 of
                   None \<Rightarrow> Inl AttributeError
                 | Some g \<Rightarrow> Inr (f\<lparr>allergies := allergies f @ map strip (split g ''and'')\<rparr>)))
      else Inr f)"

definition extract_dietary :: "facts \<Rightarrow> string \<Rightarrow> facts" where
  "extract_dietary f message_lower =
     (let f1 = (if contains message_lower ''vegetarian''
                then f\<lparr>dietary_preferences := dietary_preferences f @ [''vegetarian'']\<rparr> else f)
      in if contains message_lower ''vegan''
         then f1\<lparr>dietary_preferences := dietary_preferences f1 @ [''vegan'']\<rparr> else f1)"

text \<open>The body of \<open>for message in messages\<close>.\<close>

definition process_message :: "facts \<Rightarrow> string \<Rightarrow> py_error + facts" where
  "process_message f message =
     (let message_lower = lower message in
      case extract_location (extract_name f message) message of
        Inl e \<Rightarrow> Inl e
      | Inr f2 \<Rightarrow>
      (case extract_job f2 message of
        Inl e \<Rightarrow> Inl e
      | Inr f3 \<Rightarrow>
      (case extract_birthday f3 message of
        Inl e \<Rightarrow> Inl e
      | Inr f4 \<Rightarrow>
      (case extract_allergies (extract_age f4 message) message_lower of
        Inl e \<Rightarrow> Inl e
      | Inr f6 \<Rightarrow> Inr (extract_dietary f6 message_lower)))))"

fun process_messages :: "facts \<Rightarrow> string list \<Rightarrow> py_error + facts" where
  "process_messages f [] = Inr f"
| "process_messages f (message # messages) =
     (case process_message f message of
        Inl e \<Rightarrow> Inl e
      | Inr f' \<Rightarrow> process_messages f' messages)"

text \<open>
  The final dictionary comprehension keeps an entry only when its value is true: a
  scalar that is \<open>None\<close>, \<open>''\<close> or \<open>0\<close> leaves the result.
\<close>

definition keep_str :: "string option \<Rightarrow> string option" where
  "keep_str v = (if truthy_str v then v else None)"

definition keep_int :: "int option \<Rightarrow> int option" where
  "keep_int v = (if truthy_int v then v else None)"

definition clean_up :: "facts \<Rightarrow> facts" where
  "clean_up f =
     \<lparr>name = keep_str (name f), city = keep_str (city f), location = keep_str (location f),
      job_role = keep_str (job_role f), company = keep_str (company f),
      birthday = keep_str (birthday f), age = keep_int (age f), allergies = allergies f,
      dietary_preferences = dietary_preferences f, other_facts = other_facts f\<rparr>"

definition extract_personal_facts :: "string list \<Rightarrow> py_error + facts" where
  "extract_personal_facts messages =
     (case process_messages initial_facts messages of
        Inl e \<Rightarrow> Inl e
      | Inr f \<Rightarrow> Inr (clean_up f))"

subsection \<open>Preferences\<close>

record preferences =
  likes :: "string list"
  dislikes :: "string list"
  favorites :: "string list"

definition like_indicators :: "string list" where
  "like_indicators =
     [''love'', ''enjoy'', ''like'', ''prefer'', ''favorite'', ''favourite'', ''adore'', ''appreciate'']"

definition dislike_indicators :: "string list" where
  "dislike_indicators =
     [''hate'', ''dislike'', ''don't like'', ''can't stand'', ''detest'', ''loathe'']"

text \<open>\<open>[^.!?]\<close> and \<open>(?:\.|!|$)\<close>\<close>

definition not_terminator :: cset where
  "not_terminator = Neg [Ch CHR ''.'', Ch CHR ''!'', Ch CHR ''?'']"

definition sentence_end :: rx where
  "sentence_end = alts [Str ''.'', Str ''!'', Eos]"

text \<open>\<open>{indicator}(?:\s+(?:the|a|an))?\s+([^.!?]+?)(?:\.|!|$)\<close>\<close>

definition indicator_pattern :: "string \<Rightarrow> rx" where
  "indicator_pattern indicator =
     seqs [Str indicator,
           Opt (Seq (Many1 (Pos [Space])) (alts [Str ''the'', Str ''a'', Str ''an''])),
           Many1 (Pos [Space]), Grp 1 (Many1Lazy not_terminator), sentence_end]"

text \<open>\<open>\s+(especially|like|such as)\<close>\<close>

definition filler_pattern :: rx where
  "filler_pattern =
     Seq (Many1 (Pos [Space])) (Grp 1 (alts [Str ''especially'', Str ''like'', Str ''such as'']))"

text \<open>\<open>favorite(?:ite)? (?:is|are)?\s+([^.!?]+?)(?:\.|!|$)\<close>\<close>

definition favorite_pattern :: rx where
  "favorite_pattern =
     seqs [Str ''favorite'', Opt (Str ''ite''), Str '' '', Opt (Alt (Str ''is'') (Str ''are'')),
           Many1 (Pos [Space]), Grp 1 (Many1Lazy not_terminator), sentence_end]"

text \<open>\<open>if len(item) > 2 and item not in items: items.append(item)\<close>\<close>

definition append_new :: "string list \<Rightarrow> string \<Rightarrow> string list" where
  "append_new items item = (if 2 < length item \<and> item \<notin> set items then items @ [item] else items)"

text \<open>The body of \<open>for indicator in self.like_indicators\<close>, on the list \<open>likes\<close>.\<close>

definition like_step :: "string \<Rightarrow> string list \<Rightarrow> string \<Rightarrow> py_error + string list" where
  "like_step message_lower items indicator =
     (if contains message_lower indicator
      then (case search False (indicator_pattern indicator) message_lower of
              None \<Rightarrow> Inr items
            | Some m \<Rightarrow>
                (case group_strip m 1 of
                   Inl e \<Rightarrow> Inl e
                 | Inr liked_item \<Rightarrow> Inr (append_new items (sub_delete filler_pattern liked_item))))
      else Inr items)"

text \<open>The body of \<open>for indicator in self.dislike_indicators\<close>, on the list \<open>dislikes\<close>.\<close>

definition dislike_step :: "string \<Rightarrow> string list \<Rightarrow> string \<Rightarrow> py_error + string list" where
  "dislike_step message_lower items indicator =
     (if contains message_lower indicator
      then (case search False (indicator_pattern indicator) message_lower of
              None \<Rightarrow> Inr items
            | Some m \<Rightarrow>
                (case group_strip m 1 of
                   Inl e \<Rightarrow> Inl e
                 | Inr disliked_item \<Rightarrow> Inr (append_new items disliked_item)))
      else Inr items)"

fun for_each :: "('s \<Rightarrow> 'x \<Rightarrow> py_error + 's) \<Rightarrow> 's \<Rightarrow> 'x list \<Rightarrow> py_error + 's" where
  "for_each body s [] = Inr s"
| "for_each body s (x # xs) =
     (case body s x of Inl e \<Rightarrow> Inl e | Inr s' \<Rightarrow> for_each body s' xs)"

definition favorite_step :: "string \<Rightarrow> string list \<Rightarrow> py_error + string list" where
  "favorite_step message_lower items =
     (if contains message_lower ''favorite'' \<or> contains message_lower ''favourite''
      then (case search False favorite_pattern message_lower of
              None \<Rightarrow> Inr items
            | Some m \<Rightarrow>
                (case group_strip m 1 of
                   Inl e \<Rightarrow> Inl e
                 | Inr favorite_item \<Rightarrow>
                     if 2 < length favorite_item then Inr (items @ [favorite_item])
                     else Inr items))
      else Inr items)"

definition preference_step :: "preferences \<Rightarrow> string \<Rightarrow> py_error + preferences" where
  "preference_step p message =
     (let message_lower = lower message in
      case for_each (like_step message_lower) (likes p) like_indicators of
        Inl e \<Rightarrow> Inl e
      | Inr ls \<Rightarrow>
      (case for_each (dislike_step message_lower) (dislikes p) dislike_indicators of
        Inl e \<Rightarrow> Inl e
      | Inr ds \<Rightarrow>
      (case favorite_step message_lower (favorites p) of
        Inl e \<Rightarrow> Inl e
      | Inr fs \<Rightarrow> Inr \<lparr>likes = ls, dislikes = ds, favorites = fs\<rparr>)))"

definition extract_preferences :: "string list \<Rightarrow> py_error + preferences" where
  "extract_preferences messages =
     for_each preference_step \<lparr>likes = [], dislikes = [], favorites = []\<rparr> messages"

subsection \<open>Emotions\<close>

text \<open>The dictionary \<open>emotion_keywords\<close>, in its insertion order.\<close>

definition emotion_keywords :: "(string \<times> string list) list" where
  "emotion_keywords =
     [(''happy'', [''happy'', ''excited'', ''proud'', ''grateful'', ''joy'', ''joyful'', ''thrilled'', ''delighted'']),
      (''sad'', [''sad'', ''miss'', ''depressed'', ''down'', ''unhappy'', ''melancholy'']),
      (''anxious'', [''anxious'', ''worried'', ''stressed'', ''nervous'', ''fear'', ''afraid'', ''concerned'']),
      (''frustrated'', [''frustrated'', ''annoyed'', ''irritated'', ''angry'', ''mad'', ''upset'']),
      (''calm'', [''calm'', ''peaceful'', ''relaxed'', ''serene'', ''tranquil'', ''content''])]"

text \<open>
  A \<open>Counter\<close>: the keys in insertion order, each with its count.
  \<open>counter[key] += 1\<close> bumps a key where it stands and appends a new key with count 1.
\<close>

type_synonym counter = "(string \<times> nat) list"

fun increment :: "counter \<Rightarrow> string \<Rightarrow> counter" where
  "increment [] key = [(key, 1)]"
| "increment ((k, n) # kvs) key =
     (if k = key then (k, Suc n) # kvs else (k, n) # increment kvs key)"

text \<open>\<open>for keyword in keywords: if keyword in message_lower: ...; break\<close>\<close>

fun any_keyword :: "string list \<Rightarrow> string \<Rightarrow> bool" where
  "any_keyword [] message_lower = False"
| "any_keyword (keyword # keywords) message_lower =
     (if contains message_lower keyword then True else any_keyword keywords message_lower)"

fun count_emotions :: "(string \<times> string list) list \<Rightarrow> string \<Rightarrow> counter \<Rightarrow> counter" where
  "count_emotions [] message_lower emotion_counts = emotion_counts"
| "count_emotions ((emotion, keywords) # table) message_lower emotion_counts =
     count_emotions table message_lower
       (if any_keyword keywords message_lower then increment emotion_counts emotion
        else emotion_counts)"

fun count_messages :: "counter \<Rightarrow> string list \<Rightarrow> counter" where
  "count_messages emotion_counts [] = emotion_counts"
| "count_messages emotion_counts (message # messages) =
     count_messages (count_emotions emotion_keywords (lower message) emotion_counts) messages"

text \<open>
  \<open>most_common(1)\<close> is \<open>heapq.nlargest(1, items, key=count)\<close>, which for one element
  is \<open>max(items, key=count)\<close>: the scan keeps the item it holds unless a later one is
  strictly greater.
\<close>

fun max_by_count :: "string \<times> nat \<Rightarrow> counter \<Rightarrow> string \<times> nat" where
  "max_by_count best [] = best"
| "max_by_count best (kv # kvs) = max_by_count (if snd best < snd kv then kv else best) kvs"

definition most_common_1 :: "counter \<Rightarrow> counter" where
  "most_common_1 c = (case c of [] \<Rightarrow> [] | kv # kvs \<Rightarrow> [max_by_count kv kvs])"

record emotional_pattern =
  emotion_counts :: counter
  dominant_emotion :: "string option"
  total_emotional_messages :: nat

definition extract_emotions :: "string list \<Rightarrow> emotional_pattern" where
  "extract_emotions messages =
     (let c = count_messages [] messages in
      \<lparr>emotion_counts = c,
       dominant_emotion = (case most_common_1 c of [] \<Rightarrow> None | kv # _ \<Rightarrow> Some (fst kv)),
       total_emotional_messages = sum_list (map snd c)\<rparr>)"

section \<open>The personality engine\<close>

text \<open>
  The engine holds the memory dictionary; only its entry \<open>personal_facts\<close> is read.
  \<open>None\<close> is a dictionary without that key (the empty dictionary that replaces a
  missing memory among them).
\<close>

record engine =
  personal_facts :: "facts option"

definition get_user_name :: "engine \<Rightarrow> string" where
  "get_user_name e =
     (case personal_facts e of
        None \<Rightarrow> ''there''
      | Some f \<Rightarrow> (case name f of None \<Rightarrow> ''there'' | Some n \<Rightarrow> if n \<noteq> [] then n else ''there''))"

definition newline2 :: string where
  "newline2 = [CHR 0x0A, CHR 0x0A]"

definition calm_mentor_style :: "engine \<Rightarrow> string \<Rightarrow> string" where
  "calm_mentor_style e base_response =
     (let t0 = ''I understand where you're coming from, and I'd like to share some perspective.''
               @ newline2 @ base_response;
          t1 = t0 @ newline2 @ ''Remember, progress takes time, and you're doing great.'';
          t2 = replace t1 ''I think'' ''I believe'';
          t3 = replace t2 ''You should break'' ''You might consider breaking'';
          t4 = replace t3 ''You should take'' ''You might consider taking'';
          t5 = replace t4 ''You should create'' ''You might consider creating'';
          t6 = replace t5 ''You should'' ''You might consider''
      in replace t6 ''You need to'' ''It would be helpful to'')"

definition witty_friend_style :: "engine \<Rightarrow> string \<Rightarrow> string" where
  "witty_friend_style e base_response =
     (let user_name = get_user_name e;
          t0 = ''Hey '' @ user_name @ ''! So here's the thing...'' @ newline2 @ base_response;
          t1 = replace t0 ''I understand'' ''I totally get it'';
          t2 = replace t1 ''You should'' ''You could totally'';
          t3 = replace t2 ''It is important'' ''Here's the deal'';
          t4 = replace t3 ''I recommend'' ''My two cents?''
      in t4 @ newline2 @ ''Hope that helps! You've got this!'')"

definition therapist_style :: "engine \<Rightarrow> string \<Rightarrow> string" where
  "therapist_style e base_response =
     (let user_name = get_user_name e;
          t0 = ''I hear you, '' @ user_name @ ''. Let's explore this together.'' @ newline2
               @ base_response;
          t1 = replace t0 ''I think'' ''It seems like'';
          t2 = replace t1 ''You should'' ''You might find it helpful to'';
          t3 = replace t2 ''You need to'' ''What would it be like if you'';
          t4 = t3 @ newline2 @ ''How does that feel to you?''
      in t4 @ newline2
         @ ''There's no right or wrong answer here. What matters is what feels authentic to you.'')"

text \<open>The message of the ValueError that \<open>rewrite_response\<close> raises.\<close>

definition unknown_style :: "string \<Rightarrow> string" where
  "unknown_style style =
     ''Unknown style: '' @ style @ ''. Choose from: 'calm_mentor', 'witty_friend', 'therapist''
     @ [CHR 0x27]"

definition rewrite_response :: "engine \<Rightarrow> string \<Rightarrow> string \<Rightarrow> py_error + string" where
  "rewrite_response e base_response style0 =
     (let style = replace (lower style0) '' '' ''_'' in
      if style = ''calm_mentor'' then Inr (calm_mentor_style e base_response)
      else if style = ''witty_friend'' then Inr (witty_friend_style e base_response)
      else if style = ''therapist'' then Inr (therapist_style e base_response)
      else Inl (ValueError (unknown_style style)))"

section \<open>Definitions used to state the properties\<close>

text \<open>
  The style name as the specification normalizes it, character by character: every
  character lowercased, every space turned into an underscore.
\<close>

definition normalized_style :: "string \<Rightarrow> string" where
  "normalized_style style =
     map (\<lambda>c. if lower_char c = CHR '' '' then CHR ''_'' else lower_char c) style"

text \<open>
  \<open>counter[key]\<close>: the count of a key, 0 for a key that is absent.
\<close>

definition count_of :: "counter \<Rightarrow> string \<Rightarrow> nat" where
  "count_of c key = (case map_of c key of None \<Rightarrow> 0 | Some n \<Rightarrow> n)"

text \<open>
  A message mentions a category when one of the category's keywords is a substring of
  the lowercased message; \<open>matched_categories\<close> lists the categories a message
  mentions, in the order of the table.
\<close>

definition mentions :: "string \<Rightarrow> string \<Rightarrow> bool" where
  "mentions category message =
     (case map_of emotion_keywords category of
        None \<Rightarrow> False
      | Some keywords \<Rightarrow> list_ex (contains (lower message)) keywords)"

definition matched_categories :: "string \<Rightarrow> string list" where
  "matched_categories message = filter (\<lambda>e. mentions e message) (map fst emotion_keywords)"

text \<open>The elements of a list in the order in which each is first met.\<close>

definition first_seen :: "string list \<Rightarrow> string list" where
  "first_seen xs = foldl (\<lambda>acc x. if x \<in> set acc then acc else acc @ [x]) [] xs"

text \<open>
  \<open>has_group n r\<close>: the pattern \<open>r\<close> holds a group numbered \<open>n\<close>.
  \<open>captures_as ic n Q r\<close>: every way \<open>r\<close> matches leaves group \<open>n\<close> set, to a text
  that satisfies \<open>Q\<close>.
\<close>

fun has_group :: "nat \<Rightarrow> rx \<Rightarrow> bool" where
  "has_group n (Grp m a) = (m = n \<or> has_group n a)"
| "has_group n (Seq a b) = (has_group n a \<or> has_group n b)"
| "has_group n (Alt a b) = (has_group n a \<or> has_group n b)"
| "has_group n (Opt a) = has_group n a"
| "has_group n r = False"

definition captures_as :: "bool \<Rightarrow> nat \<Rightarrow> (string \<Rightarrow> bool) \<Rightarrow> rx \<Rightarrow> bool" where
  "captures_as ic n Q r =
     (\<forall>s g s' g'. (s', g') \<in> set (rmatch ic r (s, g)) \<longrightarrow> (\<exists>v. g' n = Some v \<and> Q v))"

text \<open>
  What one message offers to each scalar field: the value its first matching pattern
  extracts. For the location it is the first candidate, in the order of the patterns,
  that passes the filter; for the age it is the integer when the conversion succeeds.
\<close>

definition name_value :: "string \<Rightarrow> string option" where
  "name_value message =
     (case first_match name_patterns message of None \<Rightarrow> None | Some m \<Rightarrow> groups m 1)"

definition location_value :: "string \<Rightarrow> string option" where
  "location_value message =
     (case scan_location location_patterns message of Inl e \<Rightarrow> None | Inr r \<Rightarrow> r)"

definition job_value :: "string \<Rightarrow> (string \<times> string) option" where
  "job_value message =
     (case first_match job_patterns message of
        None \<Rightarrow> None
      | Some m \<Rightarrow>
          (case groups m 1 of
             None \<Rightarrow> None
           | Some role \<Rightarrow>
               (case groups m 2 of None \<Rightarrow> None | Some employer \<Rightarrow> Some (strip role, strip employer))))"

definition birthday_value :: "string \<Rightarrow> string option" where
  "birthday_value message =
     (case first_match birthday_patterns message of
        None \<Rightarrow> None
      | Some m \<Rightarrow> map_option strip (groups m 1))"

definition age_value :: "string \<Rightarrow> int option" where
  "age_value message =
     (case first_match age_patterns message of None \<Rightarrow> None | Some m \<Rightarrow> parse_age m)"

text \<open>
  The allergy text of a lowercased message, in the words of the specification: the
  text that follows the first \<open>allergic to \<close> with something other than a full stop
  behind it, up to the next full stop or the end of the message. The segments are that
  text split at every occurrence of \<open>and\<close>, each one stripped.
\<close>

fun text_after :: "string \<Rightarrow> string \<Rightarrow> string option" where
  "text_after marker [] = None"
| "text_after marker (c # cs) =
     (if startswith (c # cs) marker
         \<and> takeWhile (\<lambda>x. x \<noteq> CHR ''.'') (drop (length marker) (c # cs)) \<noteq> []
      then Some (takeWhile (\<lambda>x. x \<noteq> CHR ''.'') (drop (length marker) (c # cs)))
      else text_after marker cs)"

definition allergy_text :: "string \<Rightarrow> string option" where
  "allergy_text message_lower = text_after ''allergic to '' message_lower"

definition allergy_segments :: "string \<Rightarrow> string list" where
  "allergy_segments message =
     (if contains (lower message) ''allergic''
      then (case allergy_text (lower message) of
              None \<Rightarrow> []
            | Some t \<Rightarrow> map strip (split t ''and''))
      else [])"

definition dietary_words :: "string \<Rightarrow> string list" where
  "dietary_words message =
     (if contains (lower message) ''vegetarian'' then [''vegetarian''] else [])
     @ (if contains (lower message) ''vegan'' then [''vegan''] else [])"

text \<open>
  \<open>keep_first\<close>: a field that already holds a true value keeps it, otherwise it takes
  the value offered, if there is one. \<open>message_effect\<close> is the dictionary after one
  more message, field by field.
\<close>

definition keep_first :: "('a option \<Rightarrow> bool) \<Rightarrow> 'a option \<Rightarrow> 'a option \<Rightarrow> 'a option" where
  "keep_first truthy cur new = (if truthy cur then cur else case new of None \<Rightarrow> cur | Some v \<Rightarrow> Some v)"

definition message_effect :: "facts \<Rightarrow> string \<Rightarrow> facts" where
  "message_effect f message =
     \<lparr>name = keep_first truthy_str (name f) (name_value message),
      city = keep_first truthy_str (city f) (location_value message),
      location = (if truthy_str (city f) then location f
                  else case location_value message of None \<Rightarrow> location f | Some v \<Rightarrow> Some v),
      job_role = keep_first truthy_str (job_role f) (map_option fst (job_value message)),
      company = (if truthy_str (job_role f) then company f
                 else case job_value message of None \<Rightarrow> company f | Some rc \<Rightarrow> Some (snd rc)),
      birthday = keep_first truthy_str (birthday f) (birthday_value message),
      age = keep_first truthy_int (age f) (age_value message),
      allergies = allergies f @ allergy_segments message,
      dietary_preferences = dietary_preferences f @ dietary_words message,
      other_facts = other_facts f\<rparr>"

text \<open>
  \<open>first_value v messages\<close>: the value of the first message, in order, that offers
  one. \<open>stated_value post patterns messages\<close>: the value extracted from the first
  message, in order, that matches one of the patterns, whether or not the code keeps it.
\<close>

definition first_value :: "(string \<Rightarrow> 'a option) \<Rightarrow> string list \<Rightarrow> 'a option" where
  "first_value v messages =
     (case find (\<lambda>m. v m \<noteq> None) messages of None \<Rightarrow> None | Some m \<Rightarrow> v m)"

definition stated_value :: "(string \<Rightarrow> 'a) \<Rightarrow> rx list \<Rightarrow> string list \<Rightarrow> 'a option" where
  "stated_value post patterns messages =
     (case find (\<lambda>m. first_match patterns m \<noteq> None) messages of
        None \<Rightarrow> None
      | Some m \<Rightarrow>
          (case first_match patterns m of
             None \<Rightarrow> None
           | Some mt \<Rightarrow> map_option post (groups mt 1)))"

text \<open>
  A plain phrase, as the lowercased object of \<open>I don't like X.\<close> must be for the code
  to take it whole: longer than 2 characters, without \<open>.\<close>, \<open>!\<close> or \<open>?\<close>, neither
  beginning nor ending with whitespace, not beginning with \<open>the\<close>, \<open>a\<close> or \<open>an\<close>
  followed by whitespace, and without a filler word (whitespace followed by
  \<open>especially\<close>, \<open>like\<close> or \<open>such as\<close>).
\<close>

definition led_by_space :: "string \<Rightarrow> bool" where
  "led_by_space t = (case t of [] \<Rightarrow> False | w # _ \<Rightarrow> isspace w)"

definition after_article :: "string \<Rightarrow> bool" where
  "after_article y =
     list_ex (\<lambda>a. startswith y a \<and> led_by_space (drop (length a) y)) [''the'', ''a'', ''an'']"

definition starts_filler :: "string \<Rightarrow> bool" where
  "starts_filler t =
     (startswith t ''especially'' \<or> startswith t ''like'' \<or> startswith t ''such as'')"

fun holds_filler :: "string \<Rightarrow> bool" where
  "holds_filler [] = False"
| "holds_filler (c # cs) =
     ((isspace c \<and> starts_filler (dropWhile isspace cs)) \<or> holds_filler cs)"

definition plain_phrase :: "string \<Rightarrow> bool" where
  "plain_phrase y =
     (2 < length y \<and> list_all (\<lambda>c. c \<noteq> CHR ''.'' \<and> c \<noteq> CHR ''!'' \<and> c \<noteq> CHR ''?'') y \<and>
      \<not> isspace (hd y) \<and> \<not> isspace (last y) \<and> \<not> after_article y \<and> \<not> holds_filler y)"

text \<open>
  What \<open>calm_mentor_style\<close> puts around a text: the first opening, a blank line, the
  text, a blank line, the first closing. A text has no calm phrase when none of the
  phrases that the replacements of \<open>calm_mentor_style\<close> look for occurs in it (each of
  the three verb phrases begins with \<open>You should\<close>).
\<close>

definition calm_frame :: "string \<Rightarrow> string" where
  "calm_frame text =
     ''I understand where you're coming from, and I'd like to share some perspective.''
     @ newline2 @ text @ newline2 @ ''Remember, progress takes time, and you're doing great.''"

definition no_calm_phrase :: "string \<Rightarrow> bool" where
  "no_calm_phrase s =
     (\<not> contains s ''I think'' \<and> \<not> contains s ''You should'' \<and> \<not> contains s ''You need to'')"

section \<open>The style rewriter\<close>

lemma replace_from_char:
  "replace_from s [a] [b] = map (\<lambda>c. if c = a then b else c) s"
  by (induction s) auto

lemma replace_lower_space:
  "replace (lower style) '' '' ''_'' = normalized_style style"
  by (simp add: replace_def replace_from_char lower_def normalized_style_def)

text \<open>
  Claim C8. \<open>rewrite_response\<close> lowercases the style name and replaces its spaces with
  underscores; the three recognized names are routed to their transforms, and every
  other name makes the call raise a ValueError (the InvalidStyleKind of the
  specification), so that no text is returned.
\<close>

theorem rewrite_response_dispatch:
  "(normalized_style style = ''calm_mentor'' \<longrightarrow>
      rewrite_response e base style = Inr (calm_mentor_style e base)) \<and>
   (normalized_style style = ''witty_friend'' \<longrightarrow>
      rewrite_response e base style = Inr (witty_friend_style e base)) \<and>
   (normalized_style style = ''therapist'' \<longrightarrow>
      rewrite_response e base style = Inr (therapist_style e base)) \<and>
   (normalized_style style \<notin> {''calm_mentor'', ''witty_friend'', ''therapist''} \<longrightarrow>
      rewrite_response e base style = Inl (ValueError (unknown_style (normalized_style style))))"
  by (simp add: rewrite_response_def replace_lower_space Let_def)

theorem rewrite_response_dispatch_witness:
  "rewrite_response \<lparr>personal_facts = None\<rparr> ''Hello.'' ''Calm Mentor''
     = Inr (calm_mentor_style \<lparr>personal_facts = None\<rparr> ''Hello.'') \<and>
   rewrite_response \<lparr>personal_facts = None\<rparr> ''Hello.'' ''sarcastic''
     = Inl (ValueError (unknown_style ''sarcastic''))"
proof -
  have n1: "normalized_style ''Calm Mentor'' = ''calm_mentor''"
    by code_simp
  have n2: "normalized_style ''sarcastic'' = ''sarcastic''"
    by code_simp
  have n3: "''sarcastic'' \<notin> {''calm_mentor'', ''witty_friend'', ''therapist''}"
    by simp
  show ?thesis
    using rewrite_response_dispatch [of "''Calm Mentor''" "\<lparr>personal_facts = None\<rparr>" "''Hello.''"]
      rewrite_response_dispatch [of "''sarcastic''" "\<lparr>personal_facts = None\<rparr>" "''Hello.''"]
      n1 n2 n3
    by simp
qed

subsection \<open>A phrase between texts that hold no phrase\<close>

lemma startswith_before:
  "d \<notin> set p \<Longrightarrow> startswith (b @ d # t) p = startswith b p"
proof (induction b arbitrary: p)
  case Nil
  then show ?case by (cases p) auto
next
  case (Cons x b)
  then show ?case by (cases p) auto
qed

lemma startswith_longer: "startswith s (p @ q) \<Longrightarrow> startswith s p"
proof (induction p arbitrary: s)
  case Nil
  show ?case by simp
next
  case (Cons x p)
  then show ?case by (cases s) auto
qed

lemma contains_longer: "contains s (p @ q) \<Longrightarrow> contains s p"
proof (induction s)
  case Nil
  then show ?case by simp
next
  case (Cons c s)
  then show ?case by (auto dest: startswith_longer)
qed

lemma replace_from_none:
  "c \<notin> set s \<Longrightarrow> replace_from s (c # old) new = s"
  by (induction s) auto

lemma replace_from_free:
  "\<not> contains a (c # ps) \<Longrightarrow> y \<notin> set ps \<Longrightarrow>
   replace_from (a @ y # s) (c # ps) new = a @ replace_from (y # s) (c # ps) new"
proof (induction a)
  case Nil
  show ?case by simp
next
  case (Cons x a)
  from Cons.prems have n: "\<not> startswith (x # a) (c # ps)" and a: "\<not> contains a (c # ps)"
    by simp_all
  have "startswith ((x # a) @ y # s) (c # ps) = startswith (x # a) (c # ps)"
    using startswith_before [of y ps a s] Cons.prems(2) by simp
  with n have "\<not> startswith ((x # a) @ y # s) (c # ps)" by simp
  then have "replace_from ((x # a) @ y # s) (c # ps) new
               = x # replace_from (a @ y # s) (c # ps) new"
    by (simp del: startswith.simps)
  with Cons.IH [OF a Cons.prems(2)] show ?case by simp
qed

lemma calm_mentor_order:
  "calm_mentor_style e base =
     replace (replace (replace (replace (replace (replace (calm_frame base)
       ''I think'' ''I believe'')
       ''You should break'' ''You might consider breaking'')
       ''You should take'' ''You might consider taking'')
       ''You should create'' ''You might consider creating'')
       ''You should'' ''You might consider'')
       ''You need to'' ''It would be helpful to''"
  by (simp add: calm_mentor_style_def calm_frame_def Let_def)

lemma calm_frame_split:
  "calm_frame (a @ m @ b) =
     (''I understand where you're coming from, and I'd like to share some perspective.''
        @ newline2 @ a)
     @ m @ (b @ newline2 @ ''Remember, progress takes time, and you're doing great.'')"
  by (simp add: calm_frame_def)

lemma no_calm_phrase_longer:
  assumes "no_calm_phrase s"
  shows "\<not> contains s ''I think''" "\<not> contains s ''You need to''" "\<not> contains s ''You should''"
    "\<not> contains s ''You should break''" "\<not> contains s ''You should take''"
    "\<not> contains s ''You should create''"
proof -
  from assms show "\<not> contains s ''I think''" "\<not> contains s ''You need to''"
    and y: "\<not> contains s ''You should''"
    by (simp_all add: no_calm_phrase_def)
  from y contains_longer [of s "''You should''" "'' break''"]
  show "\<not> contains s ''You should break''" by auto
  from y contains_longer [of s "''You should''" "'' take''"]
  show "\<not> contains s ''You should take''" by auto
  from y contains_longer [of s "''You should''" "'' create''"]
  show "\<not> contains s ''You should create''" by auto
qed

lemma calm_mentor_phrases:
  assumes a: "no_calm_phrase a" and b: "no_calm_phrase b"
  shows "calm_mentor_style e (a @ ''You should break'' @ b)
           = calm_frame (a @ ''You might consider breaking'' @ b)"
    and "calm_mentor_style e (a @ ''You should take'' @ b)
           = calm_frame (a @ ''You might consider taking'' @ b)"
    and "calm_mentor_style e (a @ ''You should create'' @ b)
           = calm_frame (a @ ''You might consider creating'' @ b)"
    and "\<not> startswith b '' break'' \<and> \<not> startswith b '' take'' \<and> \<not> startswith b '' create'' \<Longrightarrow>
         calm_mentor_style e (a @ ''You should'' @ b)
           = calm_frame (a @ ''You might consider'' @ b)"
proof -
  define pre where
    "pre = ''I understand where you're coming from, and I'd like to share some perspective.''
             @ newline2 @ a"
  define T where
    "T = b @ newline2 @ ''Remember, progress takes time, and you're doing great.''"
  have f: "calm_frame (a @ m @ b) = pre @ m @ T" for m
    unfolding pre_def T_def by (rule calm_frame_split)
  note na = no_calm_phrase_longer [OF a]
  note nb = no_calm_phrase_longer [OF b]
  have np: "\<not> contains pre ''I think''" "\<not> contains pre ''You need to''"
    "\<not> contains pre ''You should''" "\<not> contains pre ''You should break''"
    "\<not> contains pre ''You should take''" "\<not> contains pre ''You should create''"
    using na by (simp_all add: pre_def newline2_def)
  have r: "replace (pre @ CHR ''Y'' # X) (c # ps) new
             = pre @ replace_from (CHR ''Y'' # X) (c # ps) new"
    if "\<not> contains pre (c # ps)" and "CHR ''Y'' \<notin> set ps" for X c ps new
    using replace_from_free [OF that] by (simp add: replace_def)
  have t: "replace_from T (c # ps) new = T"
    if "\<not> contains b (c # ps)" and "CHR 0x0A \<notin> set ps" and "c = CHR ''I'' \<or> c = CHR ''Y''"
    for c ps new
  proof -
    have "replace_from
            (CHR 0x0A # CHR 0x0A # ''Remember, progress takes time, and you're doing great.'')
            (c # ps) new
          = CHR 0x0A # CHR 0x0A # ''Remember, progress takes time, and you're doing great.''"
      using that(3) by (intro replace_from_none) auto
    with replace_from_free [OF that(1,2)] show ?thesis
      by (simp add: T_def newline2_def)
  qed
  have sw: "startswith T p = startswith b p" if "CHR 0x0A \<notin> set p" for p
    using startswith_before [OF that] by (simp add: T_def newline2_def)
  show "calm_mentor_style e (a @ ''You should break'' @ b)
           = calm_frame (a @ ''You might consider breaking'' @ b)"
    unfolding calm_mentor_order f by (simp add: r t np nb)
  show "calm_mentor_style e (a @ ''You should take'' @ b)
           = calm_frame (a @ ''You might consider taking'' @ b)"
    unfolding calm_mentor_order f by (simp add: r t np nb)
  show "calm_mentor_style e (a @ ''You should create'' @ b)
           = calm_frame (a @ ''You might consider creating'' @ b)"
    unfolding calm_mentor_order f by (simp add: r t np nb)
  show "calm_mentor_style e (a @ ''You should'' @ b)
           = calm_frame (a @ ''You might consider'' @ b)"
    if "\<not> startswith b '' break'' \<and> \<not> startswith b '' take'' \<and> \<not> startswith b '' create''"
    using that unfolding calm_mentor_order f by (simp add: r t np nb sw)
qed

text \<open>
  Claim C9. \<open>calm_mentor_style\<close> frames the text and then runs its replacements in the
  order of the source: \<open>I think\<close>, the three verb phrases \<open>You should break\<close>,
  \<open>You should take\<close> and \<open>You should create\<close>, only then the generic \<open>You should\<close>,
  and \<open>You need to\<close>. So, between any two texts \<open>a\<close> and \<open>b\<close> that hold none of the replaced
  phrases, \<open>You should break\<close>, \<open>You should take\<close> and \<open>You should create\<close> become
  \<open>You might consider breaking\<close>, \<open>You might consider taking\<close> and
  \<open>You might consider creating\<close>, and nothing else changes; a \<open>You should\<close> that none of
  the three verbs follows becomes \<open>You might consider\<close>. For the base text
  \<open>You should take a break.\<close> the output is the opening, \<open>You might consider taking a
  break.\<close> and the closing; it contains \<open>You might consider taking a break.\<close> and does not
  contain \<open>You might consider take\<close>, which is what the two replacements leave when the
  generic one runs first.
\<close>

theorem calm_mentor_specific_before_generic:
  "calm_mentor_style e base =
     replace (replace (replace (replace (replace (replace (calm_frame base)
       ''I think'' ''I believe'')
       ''You should break'' ''You might consider breaking'')
       ''You should take'' ''You might consider taking'')
       ''You should create'' ''You might consider creating'')
       ''You should'' ''You might consider'')
       ''You need to'' ''It would be helpful to'' \<and>
   (no_calm_phrase a \<and> no_calm_phrase b \<longrightarrow>
      calm_mentor_style e (a @ ''You should break'' @ b)
        = calm_frame (a @ ''You might consider breaking'' @ b) \<and>
      calm_mentor_style e (a @ ''You should take'' @ b)
        = calm_frame (a @ ''You might consider taking'' @ b) \<and>
      calm_mentor_style e (a @ ''You should create'' @ b)
        = calm_frame (a @ ''You might consider creating'' @ b) \<and>
      (\<not> startswith b '' break'' \<and> \<not> startswith b '' take'' \<and> \<not> startswith b '' create'' \<longrightarrow>
         calm_mentor_style e (a @ ''You should'' @ b)
           = calm_frame (a @ ''You might consider'' @ b))) \<and>
   calm_mentor_style e ''You should take a break.'' =
     ''I understand where you're coming from, and I'd like to share some perspective.''
     @ [CHR 0x0A, CHR 0x0A] @ ''You might consider taking a break.'' @ [CHR 0x0A, CHR 0x0A]
     @ ''Remember, progress takes time, and you're doing great.'' \<and>
   contains (calm_mentor_style e ''You should take a break.'')
     ''You might consider taking a break.'' \<and>
   \<not> contains (calm_mentor_style e ''You should take a break.'') ''You might consider take'' \<and>
   replace (replace ''You should take a break.'' ''You should'' ''You might consider'')
     ''You should take'' ''You might consider taking'' = ''You might consider take a break.''"
proof -
  have p: "no_calm_phrase a \<and> no_calm_phrase b \<longrightarrow>
      calm_mentor_style e (a @ ''You should break'' @ b)
        = calm_frame (a @ ''You might consider breaking'' @ b) \<and>
      calm_mentor_style e (a @ ''You should take'' @ b)
        = calm_frame (a @ ''You might consider taking'' @ b) \<and>
      calm_mentor_style e (a @ ''You should create'' @ b)
        = calm_frame (a @ ''You might consider creating'' @ b) \<and>
      (\<not> startswith b '' break'' \<and> \<not> startswith b '' take'' \<and> \<not> startswith b '' create'' \<longrightarrow>
         calm_mentor_style e (a @ ''You should'' @ b)
           = calm_frame (a @ ''You might consider'' @ b))"
    using calm_mentor_phrases [of a b e] by blast
  have s: "calm_mentor_style e ''You should take a break.'' =
     ''I understand where you're coming from, and I'd like to share some perspective.''
     @ [CHR 0x0A, CHR 0x0A] @ ''You might consider taking a break.'' @ [CHR 0x0A, CHR 0x0A]
     @ ''Remember, progress takes time, and you're doing great.'' \<and>
   contains (calm_mentor_style e ''You should take a break.'')
     ''You might consider taking a break.'' \<and>
   \<not> contains (calm_mentor_style e ''You should take a break.'') ''You might consider take'' \<and>
   replace (replace ''You should take a break.'' ''You should'' ''You might consider'')
     ''You should take'' ''You might consider taking'' = ''You might consider take a break.''"
    by code_simp
  show ?thesis
    by (rule conjI [OF calm_mentor_order conjI [OF p s]])
qed

theorem calm_mentor_specific_before_generic_witness:
  "no_calm_phrase ''Well. '' \<and> no_calm_phrase '' rest.'' \<and>
   \<not> startswith '' rest.'' '' break'' \<and> \<not> startswith '' rest.'' '' take'' \<and>
   \<not> startswith '' rest.'' '' create'' \<and>
   calm_mentor_style \<lparr>personal_facts = None\<rparr> ''Well. You should take rest.''
     = calm_frame ''Well. You might consider taking rest.'' \<and>
   calm_mentor_style \<lparr>personal_facts = None\<rparr> ''Well. You should rest.''
     = calm_frame ''Well. You might consider rest.''"
proof -
  have h: "no_calm_phrase ''Well. '' \<and> no_calm_phrase '' rest.''"
    by code_simp
  show ?thesis
    using calm_mentor_specific_before_generic
      [of "\<lparr>personal_facts = None\<rparr>" "''Hello.''" "''Well. ''" "'' rest.''"] h
    by simp
qed

section \<open>Preferences and names: where the code leaves the specification\<close>

text \<open>
  Claim C2. For the messages \<open>I love pizza.\<close>, \<open>I hate mornings.\<close> and \<open>My favorite color
  is blue.\<close> the code returns the likes \<open>pizza\<close> and \<open>color is blue\<close>, the dislike
  \<open>mornings\<close> and no favorite: the favorites pattern wants \<open>is\<close> or \<open>are\<close>, or a second
  blank, right after \<open>favorite\<close>, so \<open>blue\<close> is not found.
\<close>

theorem extract_preferences_pizza_scenario:
  "extract_preferences [''I love pizza.'', ''I hate mornings.'', ''My favorite color is blue.'']
     = Inr \<lparr>likes = [''pizza'', ''color is blue''], dislikes = [''mornings''], favorites = []\<rparr>"
  by code_simp

text \<open>
  Claim C3. The flag \<open>re.IGNORECASE\<close> also frees the classes \<open>[A-Z]\<close> and \<open>[a-z]\<close> of
  their case: the message \<open>my name is bob\<close>, whose candidate name is not capitalized,
  sets the name to \<open>bob\<close>.
\<close>

theorem extract_name_uncapitalized:
  "extract_personal_facts [''my name is bob''] = Inr (initial_facts\<lparr>name := Some ''bob''\<rparr>)"
  by code_simp

text \<open>
  Claim C4. The dislikes branch does not delete the filler words that the likes branch
  deletes: the same phrase after \<open>hate\<close> is kept whole, after \<open>love\<close> it loses
  \<open>such as\<close>.
\<close>

theorem dislikes_keep_filler_words:
  "extract_preferences [''I hate fruit such as kiwi.'']
     = Inr \<lparr>likes = [], dislikes = [''fruit such as kiwi''], favorites = []\<rparr> \<and>
   extract_preferences [''I love fruit such as kiwi.'']
     = Inr \<lparr>likes = [''fruit kiwi''], dislikes = [], favorites = []\<rparr>"
  by code_simp

section \<open>Emotion counts\<close>

lemma any_keyword_list_ex: "any_keyword kws ml = list_ex (contains ml) kws"
  by (induction kws) auto

lemma count_of_Nil: "count_of [] e = 0"
  by (simp add: count_of_def)

lemma count_of_increment:
  "count_of (increment c k) k' = (if k' = k then Suc (count_of c k) else count_of c k')"
  by (induction c) (auto simp: count_of_def)

lemma count_of_count_emotions:
  "count_of (count_emotions table ml c) e =
     count_of c e + length (filter (\<lambda>(k, kws). k = e \<and> any_keyword kws ml) table)"
  by (induction table arbitrary: c) (auto simp: count_of_increment split: if_splits)

lemma length_filter_key:
  "distinct (map fst t) \<Longrightarrow>
   length (filter (\<lambda>(k, v). k = e \<and> P v) t) =
     (case map_of t e of None \<Rightarrow> 0 | Some v \<Rightarrow> if P v then 1 else 0)"
proof (induction t)
  case Nil
  then show ?case by simp
next
  case (Cons a t)
  obtain k v where a: "a = (k, v)" by (cases a)
  show ?case
  proof (cases "k = e")
    case True
    with Cons.prems a have "e \<notin> fst ` set t" by auto
    then have "filter (\<lambda>(k, v). k = e \<and> P v) t = []"
      by (force simp: filter_empty_conv)
    with True a show ?thesis by simp
  next
    case False
    with Cons a show ?thesis by simp
  qed
qed

lemma distinct_emotion_keys: "distinct (map fst emotion_keywords)"
  by (simp add: emotion_keywords_def)

lemma emotion_table_mentions:
  "length (filter (\<lambda>(k, kws). k = e \<and> any_keyword kws (lower m)) emotion_keywords) =
     (if mentions e m then 1 else 0)"
  by (simp add: length_filter_key [OF distinct_emotion_keys] mentions_def any_keyword_list_ex
      split: option.split)

lemma count_of_count_messages:
  "count_of (count_messages c msgs) e = count_of c e + length (filter (mentions e) msgs)"
  by (induction msgs arbitrary: c) (auto simp: count_of_count_emotions emotion_table_mentions)

lemma total_increment: "sum_list (map snd (increment c k)) = Suc (sum_list (map snd c))"
  by (induction c) auto

lemma total_count_emotions:
  "sum_list (map snd (count_emotions table ml c)) =
     sum_list (map snd c) + length (filter (\<lambda>(k, kws). any_keyword kws ml) table)"
  by (induction table arbitrary: c) (auto simp: total_increment)

lemma filter_values_keys:
  "distinct (map fst t) \<Longrightarrow>
   map fst (filter (\<lambda>(k, v). P v) t) =
     filter (\<lambda>e. case map_of t e of None \<Rightarrow> False | Some v \<Rightarrow> P v) (map fst t)"
proof (induction t)
  case Nil
  then show ?case by simp
next
  case (Cons a t)
  obtain k v where a: "a = (k, v)" by (cases a)
  from Cons.prems a have notin: "k \<notin> set (map fst t)" and d: "distinct (map fst t)" by auto
  have "filter (\<lambda>e. case map_of (a # t) e of None \<Rightarrow> False | Some v \<Rightarrow> P v) (map fst t)
      = filter (\<lambda>e. case map_of t e of None \<Rightarrow> False | Some v \<Rightarrow> P v) (map fst t)"
    using notin a by (intro filter_cong) auto
  with Cons.IH [OF d] a show ?case by simp
qed

lemma matched_categories_table:
  "map fst (filter (\<lambda>(k, kws). any_keyword kws (lower m)) emotion_keywords) = matched_categories m"
  by (simp add: filter_values_keys [OF distinct_emotion_keys] matched_categories_def mentions_def
      any_keyword_list_ex)

lemma length_matched_categories:
  "length (filter (\<lambda>(k, kws). any_keyword kws (lower m)) emotion_keywords) = length (matched_categories m)"
  using arg_cong [OF matched_categories_table, of length m] by simp

lemma total_count_messages:
  "sum_list (map snd (count_messages c msgs)) =
     sum_list (map snd c) + (\<Sum>m\<leftarrow>msgs. length (matched_categories m))"
  by (induction msgs arbitrary: c) (auto simp: total_count_emotions length_matched_categories)

lemma sum_list_indicator:
  "(\<Sum>e\<leftarrow>es. if P e then 1 else 0) = length (filter P es)"
  by (induction es) auto

lemma sum_counts_exchange:
  "(\<Sum>e\<leftarrow>es. length (filter (\<lambda>m. Q e m) msgs)) = (\<Sum>m\<leftarrow>msgs. length (filter (\<lambda>e. Q e m) es))"
proof (induction msgs)
  case Nil
  then show ?case by simp
next
  case (Cons m msgs)
  have "(\<Sum>e\<leftarrow>es. length (filter (\<lambda>m. Q e m) (m # msgs)))
      = (\<Sum>e\<leftarrow>es. (if Q e m then 1 else 0) + length (filter (\<lambda>m. Q e m) msgs))"
    by (intro arg_cong [where f = sum_list] map_cong) auto
  also have "\<dots> = (\<Sum>e\<leftarrow>es. if Q e m then 1 else 0) + (\<Sum>e\<leftarrow>es. length (filter (\<lambda>m. Q e m) msgs))"
    by (simp add: sum_list_addf)
  finally show ?case using Cons.IH by (simp add: sum_list_indicator)
qed

lemma total_is_sum_of_counts:
  "sum_list (map snd (count_messages [] msgs)) =
     (\<Sum>e\<leftarrow>map fst emotion_keywords. count_of (count_messages [] msgs) e)"
proof -
  have "(\<Sum>e\<leftarrow>map fst emotion_keywords. count_of (count_messages [] msgs) e)
      = (\<Sum>e\<leftarrow>map fst emotion_keywords. length (filter (mentions e) msgs))"
    by (simp add: count_of_count_messages count_of_Nil)
  also have "\<dots> = (\<Sum>m\<leftarrow>msgs. length (filter (\<lambda>e. mentions e m) (map fst emotion_keywords)))"
    by (rule sum_counts_exchange)
  finally show ?thesis
    by (simp add: total_count_messages matched_categories_def)
qed


lemma emotion_counts_extract: "emotion_counts (extract_emotions msgs) = count_messages [] msgs"
  by (simp add: extract_emotions_def Let_def)

lemma total_extract:
  "total_emotional_messages (extract_emotions msgs) = sum_list (map snd (count_messages [] msgs))"
  by (simp add: extract_emotions_def Let_def)

lemma categories: "map fst emotion_keywords = [''happy'', ''sad'', ''anxious'', ''frustrated'', ''calm'']"
  by (simp add: emotion_keywords_def)

lemma two_matched:
  "mentions ''happy'' m \<Longrightarrow> mentions ''anxious'' m \<Longrightarrow> 2 \<le> length (matched_categories m)"
  by (simp add: matched_categories_def categories)

lemma only_two_matched:
  "mentions ''happy'' m \<Longrightarrow> mentions ''anxious'' m \<Longrightarrow> \<not> mentions ''sad'' m \<Longrightarrow>
   \<not> mentions ''frustrated'' m \<Longrightarrow> \<not> mentions ''calm'' m \<Longrightarrow> length (matched_categories m) = 2"
  by (simp add: matched_categories_def categories)

text \<open>
  Claim C6. The count of a category is the number of messages that mention it: a
  message adds exactly 1 to every category one of whose keywords is a substring of its
  lowercased text, however many of the keywords occur, and nothing to the others.
  \<open>total_emotional_messages\<close> is the sum of the counts of the five categories, and a
  message adds to it the number of categories it mentions. A message that mentions
  \<open>happy\<close> and \<open>anxious\<close> adds 1 to each of the two counts and at least 2 to the total,
  exactly 2 when it mentions no other category.
\<close>

theorem extract_emotions_counts:
  "count_of (emotion_counts (extract_emotions messages)) category
     = length (filter (mentions category) messages) \<and>
   total_emotional_messages (extract_emotions messages)
     = (\<Sum>e\<leftarrow>map fst emotion_keywords. count_of (emotion_counts (extract_emotions messages)) e) \<and>
   total_emotional_messages (extract_emotions (messages @ [m]))
     = total_emotional_messages (extract_emotions messages) + length (matched_categories m) \<and>
   (mentions ''happy'' m \<and> mentions ''anxious'' m \<longrightarrow>
      count_of (emotion_counts (extract_emotions (messages @ [m]))) ''happy''
        = count_of (emotion_counts (extract_emotions messages)) ''happy'' + 1 \<and>
      count_of (emotion_counts (extract_emotions (messages @ [m]))) ''anxious''
        = count_of (emotion_counts (extract_emotions messages)) ''anxious'' + 1 \<and>
      total_emotional_messages (extract_emotions messages) + 2
        \<le> total_emotional_messages (extract_emotions (messages @ [m])) \<and>
      (\<not> mentions ''sad'' m \<and> \<not> mentions ''frustrated'' m \<and> \<not> mentions ''calm'' m \<longrightarrow>
         total_emotional_messages (extract_emotions (messages @ [m]))
           = total_emotional_messages (extract_emotions messages) + 2))"
proof -
  have count: "count_of (emotion_counts (extract_emotions ms)) e = length (filter (mentions e) ms)"
    for ms e
    by (simp add: emotion_counts_extract count_of_count_messages count_of_Nil)
  have total: "total_emotional_messages (extract_emotions ms)
      = (\<Sum>x\<leftarrow>ms. length (matched_categories x))" for ms
    by (simp add: total_extract total_count_messages)
  have sum: "total_emotional_messages (extract_emotions messages)
      = (\<Sum>e\<leftarrow>map fst emotion_keywords. count_of (emotion_counts (extract_emotions messages)) e)"
    unfolding total_extract emotion_counts_extract by (rule total_is_sum_of_counts)
  have step: "total_emotional_messages (extract_emotions (messages @ [m]))
      = total_emotional_messages (extract_emotions messages) + length (matched_categories m)"
    by (simp add: total)
  show ?thesis
    using sum step two_matched [of m] only_two_matched [of m] by (simp add: count)
qed

theorem extract_emotions_counts_witness:
  "count_of (emotion_counts (extract_emotions [''I am happy but anxious''])) ''happy'' = 1 \<and>
   count_of (emotion_counts (extract_emotions [''I am happy but anxious''])) ''anxious'' = 1 \<and>
   total_emotional_messages (extract_emotions [''I am happy but anxious'']) = 2"
proof -
  have h: "mentions ''happy'' ''I am happy but anxious''"
    by code_simp
  have a: "mentions ''anxious'' ''I am happy but anxious''"
    by code_simp
  have n: "\<not> mentions ''sad'' ''I am happy but anxious'' \<and>
      \<not> mentions ''frustrated'' ''I am happy but anxious'' \<and>
      \<not> mentions ''calm'' ''I am happy but anxious''"
    by code_simp
  have z: "count_of (emotion_counts (extract_emotions [])) ''happy'' = 0 \<and>
      count_of (emotion_counts (extract_emotions [])) ''anxious'' = 0 \<and>
      total_emotional_messages (extract_emotions []) = 0"
    by code_simp
  show ?thesis
    using extract_emotions_counts [of "[]" "''happy''" "''I am happy but anxious''"] h a n z
    by simp
qed


lemma keys_increment:
  "map fst (increment c k) = (if k \<in> set (map fst c) then map fst c else map fst c @ [k])"
  by (induction c) force+

lemma distinct_increment: "distinct (map fst c) \<Longrightarrow> distinct (map fst (increment c k))"
  by (simp add: keys_increment)

lemma distinct_count_emotions:
  "distinct (map fst c) \<Longrightarrow> distinct (map fst (count_emotions table ml c))"
  by (induction table arbitrary: c) (auto simp: distinct_increment)

lemma distinct_count_messages:
  "distinct (map fst c) \<Longrightarrow> distinct (map fst (count_messages c msgs))"
  by (induction msgs arbitrary: c) (auto simp: distinct_count_emotions)

lemma keys_count_emotions:
  "map fst (count_emotions table ml c) =
     foldl (\<lambda>acc x. if x \<in> set acc then acc else acc @ [x]) (map fst c)
       (map fst (filter (\<lambda>(k, kws). any_keyword kws ml) table))"
proof (induction table arbitrary: c)
  case Nil
  show ?case by simp
next
  case (Cons a table)
  obtain k kws where a: "a = (k, kws)" by (cases a)
  show ?case unfolding a by (simp add: Cons.IH keys_increment)
qed

lemma keys_count_messages:
  "map fst (count_messages c msgs) =
     foldl (\<lambda>acc x. if x \<in> set acc then acc else acc @ [x]) (map fst c)
       (concat (map matched_categories msgs))"
  by (induction msgs arbitrary: c) (auto simp: keys_count_emotions matched_categories_table)

lemma add_key_not_Nil: "(if x \<in> set acc then acc else acc @ [x]) \<noteq> []"
  by (cases acc) auto

lemma foldl_add_key_Nil:
  "foldl (\<lambda>acc x. if x \<in> set acc then acc else acc @ [x]) acc xs = [] \<longleftrightarrow> acc = [] \<and> xs = []"
proof (induction xs arbitrary: acc)
  case Nil
  show ?case by simp
next
  case (Cons x xs)
  show ?case
    using Cons.IH [of "if x \<in> set acc then acc else acc @ [x]"] add_key_not_Nil [of x acc]
    by simp
qed


lemma count_messages_Nil:
  "count_messages [] msgs = [] \<longleftrightarrow> (\<forall>m\<in>set msgs. matched_categories m = [])"
proof -
  have "count_messages [] msgs = [] \<longleftrightarrow> map fst (count_messages [] msgs) = []"
    by simp
  also have "\<dots> \<longleftrightarrow> concat (map matched_categories msgs) = []"
    unfolding keys_count_messages by (simp add: foldl_add_key_Nil)
  finally show ?thesis by auto
qed

lemma max_by_count_mem: "max_by_count best kvs \<in> set (best # kvs)"
  by (induction kvs arbitrary: best) (simp, force)

lemma max_by_count_best: "snd best \<le> snd (max_by_count best kvs)"
proof (induction kvs arbitrary: best)
  case Nil
  show ?case by simp
next
  case (Cons kv kvs)
  show ?case
  proof (cases "snd best < snd kv")
    case True
    with Cons.IH [of kv] show ?thesis by simp
  next
    case False
    with Cons.IH [of best] show ?thesis by simp
  qed
qed

lemma max_by_count_rest: "x \<in> set kvs \<Longrightarrow> snd x \<le> snd (max_by_count best kvs)"
proof (induction kvs arbitrary: best)
  case Nil
  then show ?case by simp
next
  case (Cons kv kvs)
  show ?case
  proof (cases "x = kv")
    case True
    show ?thesis
    proof (cases "snd best < snd kv")
      case True
      with \<open>x = kv\<close> max_by_count_best [of kv kvs] show ?thesis by simp
    next
      case False
      with \<open>x = kv\<close> max_by_count_best [of best kvs] show ?thesis by simp
    qed
  next
    case False
    with Cons.prems have "x \<in> set kvs" by simp
    from Cons.IH [OF this] show ?thesis by simp
  qed
qed

lemma max_by_count_first:
  "find (\<lambda>x. snd (max_by_count best kvs) \<le> snd x) (best # kvs) = Some (max_by_count best kvs)"
proof (induction kvs arbitrary: best)
  case Nil
  show ?case by simp
next
  case (Cons kv kvs)
  show ?case
  proof (cases "snd best < snd kv")
    case True
    have "snd kv \<le> snd (max_by_count kv kvs)"
      by (rule max_by_count_best)
    with True have "\<not> snd (max_by_count kv kvs) \<le> snd best" by simp
    with True Cons.IH [of kv] show ?thesis by simp
  next
    case False
    show ?thesis
    proof (cases "snd (max_by_count best kvs) \<le> snd best")
      case True
      with False Cons.IH [of best] show ?thesis by simp
    next
      case le: False
      with False have "\<not> snd (max_by_count best kvs) \<le> snd kv" by simp
      with False le Cons.IH [of best] show ?thesis by simp
    qed
  qed
qed


lemma count_of_entry: "distinct (map fst c) \<Longrightarrow> (k, n) \<in> set c \<Longrightarrow> count_of c k = n"
  by (simp add: count_of_def)

lemma count_of_absent:
  assumes "k \<notin> set (map fst c)"
  shows "count_of c k = 0"
proof -
  from assms have "map_of c k = None"
    by (simp add: map_of_eq_None_iff)
  then show ?thesis by (simp add: count_of_def)
qed

lemma find_before:
  "find P xs = Some r \<Longrightarrow> x \<in> set (takeWhile (\<lambda>y. fst y \<noteq> fst r) xs) \<Longrightarrow> \<not> P x"
proof (induction xs)
  case Nil
  then show ?case by simp
next
  case (Cons y ys)
  show ?case
  proof (cases "P y")
    case True
    with Cons.prems show ?thesis by simp
  next
    case False
    with Cons.prems have f: "find P ys = Some r" by simp
    show ?thesis
    proof (cases "x = y")
      case True
      with False show ?thesis by simp
    next
      case ne: False
      with Cons.prems(2) have "x \<in> set (takeWhile (\<lambda>y. fst y \<noteq> fst r) ys)"
        by (simp split: if_splits)
      with Cons.IH f show ?thesis by simp
    qed
  qed
qed

lemma positive_increment:
  assumes "\<And>kv. kv \<in> set c \<Longrightarrow> 0 < snd kv" and "kv \<in> set (increment c k)"
  shows "0 < snd kv"
  using assms
proof (induction c)
  case Nil
  then show ?case by simp
next
  case (Cons a c)
  obtain k' n where a: "a = (k', n)" by (cases a)
  show ?case
  proof (cases "k' = k")
    case True
    with Cons.prems(2) a consider "kv = (k, Suc n)" | "kv \<in> set c" by auto
    then show ?thesis
    proof cases
      case 1
      then show ?thesis by simp
    next
      case 2
      with Cons.prems(1) [of kv] show ?thesis by simp
    qed
  next
    case False
    with Cons.prems(2) a consider "kv = (k', n)" | "kv \<in> set (increment c k)" by auto
    then show ?thesis
    proof cases
      case 1
      with Cons.prems(1) [of a] a show ?thesis by simp
    next
      case 2
      with Cons.IH Cons.prems(1) show ?thesis by simp
    qed
  qed
qed

lemma positive_count_emotions:
  "(\<And>kv. kv \<in> set c \<Longrightarrow> 0 < snd kv) \<Longrightarrow> kv \<in> set (count_emotions table ml c) \<Longrightarrow> 0 < snd kv"
proof (induction table arbitrary: c)
  case Nil
  then show ?case by simp
next
  case (Cons a table)
  obtain k kws where a: "a = (k, kws)" by (cases a)
  let ?c = "if any_keyword kws ml then increment c k else c"
  have pos: "0 < snd x" if "x \<in> set ?c" for x
    using that Cons.prems(1) positive_increment [of c x k] by (auto split: if_splits)
  from Cons.prems(2) a have "kv \<in> set (count_emotions table ml ?c)" by simp
  with Cons.IH [of ?c] pos show ?case by blast
qed

lemma positive_count_messages:
  "(\<And>kv. kv \<in> set c \<Longrightarrow> 0 < snd kv) \<Longrightarrow> kv \<in> set (count_messages c msgs) \<Longrightarrow> 0 < snd kv"
proof (induction msgs arbitrary: c)
  case Nil
  then show ?case by simp
next
  case (Cons m msgs)
  let ?c = "count_emotions emotion_keywords (lower m) c"
  have pos: "0 < snd x" if "x \<in> set ?c" for x
    using that Cons.prems(1) positive_count_emotions [of c x] by blast
  from Cons.prems(2) have "kv \<in> set (count_messages ?c msgs)" by simp
  with Cons.IH [of ?c] pos show ?case by blast
qed

lemma dominant_extract:
  "dominant_emotion (extract_emotions msgs) =
     (case count_messages [] msgs of [] \<Rightarrow> None | kv # kvs \<Rightarrow> Some (fst (max_by_count kv kvs)))"
  by (simp add: extract_emotions_def Let_def most_common_1_def split: list.split)

lemma dominant_is_first_highest:
  assumes c: "count_messages [] msgs = kv # kvs" and d: "d = fst (max_by_count kv kvs)"
  shows "d \<in> set (map fst (count_messages [] msgs))"
    and "0 < count_of (count_messages [] msgs) d"
    and "count_of (count_messages [] msgs) e \<le> count_of (count_messages [] msgs) d"
    and "e \<in> set (takeWhile (\<lambda>k. k \<noteq> d) (map fst (count_messages [] msgs))) \<Longrightarrow>
         count_of (count_messages [] msgs) e < count_of (count_messages [] msgs) d"
proof -
  let ?C = "count_messages [] msgs" and ?r = "max_by_count kv kvs"
  have dist: "distinct (map fst ?C)"
    by (rule distinct_count_messages) simp
  have r_in: "?r \<in> set ?C"
    using max_by_count_mem [of kv kvs] c by simp
  then have "(d, snd ?r) \<in> set ?C"
    using d by simp
  with dist have cnt_d: "count_of ?C d = snd ?r"
    by (rule count_of_entry)
  show "d \<in> set (map fst ?C)"
    using r_in d by force
  show "0 < count_of ?C d"
    using positive_count_messages [of "[]" ?r msgs] r_in cnt_d by simp
  have upper: "snd x \<le> snd ?r" if "x \<in> set ?C" for x
  proof (cases "x = kv")
    case True
    then show ?thesis by (simp add: max_by_count_best)
  next
    case False
    with that c have "x \<in> set kvs" by simp
    then show ?thesis by (rule max_by_count_rest)
  qed
  show "count_of ?C e \<le> count_of ?C d"
  proof (cases "e \<in> set (map fst ?C)")
    case True
    then obtain n where n: "(e, n) \<in> set ?C" by auto
    with dist have "count_of ?C e = n" by (rule count_of_entry)
    with upper [OF n] cnt_d show ?thesis by simp
  next
    case False
    then show ?thesis by (simp add: count_of_absent)
  qed
  show "count_of ?C e < count_of ?C d"
    if "e \<in> set (takeWhile (\<lambda>k. k \<noteq> d) (map fst ?C))"
  proof -
    from that have "e \<in> fst ` set (takeWhile (\<lambda>y. fst y \<noteq> fst ?r) ?C)"
      by (simp add: takeWhile_map d comp_def)
    then obtain x where x: "x \<in> set (takeWhile (\<lambda>y. fst y \<noteq> fst ?r) ?C)" and e: "e = fst x"
      by auto
    have "find (\<lambda>x. snd ?r \<le> snd x) ?C = Some ?r"
      using max_by_count_first [of kv kvs] c by simp
    from find_before [OF this x] have lt: "snd x < snd ?r" by simp
    from x have "x \<in> set ?C" by (auto dest: set_takeWhileD)
    then have "(e, snd x) \<in> set ?C" using e by simp
    with dist have "count_of ?C e = snd x" by (rule count_of_entry)
    with lt cnt_d show ?thesis by simp
  qed
qed

text \<open>
  Claim C7. \<open>dominant_emotion\<close> is \<open>None\<close> exactly when no message mentions any
  category. Otherwise it is a key of the counter whose count is positive and at least
  the count of every category, and every key inserted before it has a strictly
  smaller count: among the categories with the highest count the first inserted wins.
  The keys stand in the order in which the categories are first met, message by
  message and, within a message, in the order of the table.
\<close>

theorem dominant_emotion_first_highest:
  "(dominant_emotion (extract_emotions messages) = None)
     = (\<forall>m\<in>set messages. matched_categories m = []) \<and>
   (dominant_emotion (extract_emotions messages) = Some d \<longrightarrow>
      d \<in> set (map fst (emotion_counts (extract_emotions messages))) \<and>
      0 < count_of (emotion_counts (extract_emotions messages)) d \<and>
      (\<forall>e. count_of (emotion_counts (extract_emotions messages)) e
             \<le> count_of (emotion_counts (extract_emotions messages)) d) \<and>
      (\<forall>e\<in>set (takeWhile (\<lambda>k. k \<noteq> d) (map fst (emotion_counts (extract_emotions messages)))).
         count_of (emotion_counts (extract_emotions messages)) e
           < count_of (emotion_counts (extract_emotions messages)) d)) \<and>
   map fst (emotion_counts (extract_emotions messages))
     = first_seen (concat (map matched_categories messages))"
proof (intro conjI impI)
  show "(dominant_emotion (extract_emotions messages) = None)
      = (\<forall>m\<in>set messages. matched_categories m = [])"
  proof (cases "count_messages [] messages")
    case Nil
    with count_messages_Nil [of messages] show ?thesis
      by (simp add: dominant_extract)
  next
    case (Cons kv kvs)
    with count_messages_Nil [of messages] show ?thesis
      by (simp add: dominant_extract)
  qed
  show "map fst (emotion_counts (extract_emotions messages))
      = first_seen (concat (map matched_categories messages))"
    by (simp add: emotion_counts_extract keys_count_messages first_seen_def)
next
  assume "dominant_emotion (extract_emotions messages) = Some d"
  then obtain kv kvs where c: "count_messages [] messages = kv # kvs"
    and d: "d = fst (max_by_count kv kvs)"
    by (auto simp: dominant_extract split: list.splits)
  note facts = dominant_is_first_highest [OF c d]
  show "d \<in> set (map fst (emotion_counts (extract_emotions messages)))"
    unfolding emotion_counts_extract by (rule facts(1))
  show "0 < count_of (emotion_counts (extract_emotions messages)) d"
    unfolding emotion_counts_extract by (rule facts(2))
  show "\<forall>e. count_of (emotion_counts (extract_emotions messages)) e
             \<le> count_of (emotion_counts (extract_emotions messages)) d"
    unfolding emotion_counts_extract using facts(3) by blast
  show "\<forall>e\<in>set (takeWhile (\<lambda>k. k \<noteq> d) (map fst (emotion_counts (extract_emotions messages)))).
         count_of (emotion_counts (extract_emotions messages)) e
           < count_of (emotion_counts (extract_emotions messages)) d"
    unfolding emotion_counts_extract using facts(4) by blast
qed


theorem dominant_emotion_first_highest_witness:
  "dominant_emotion (extract_emotions [''I am sad and calm'', ''so happy'']) = Some ''sad'' \<and>
   count_of (emotion_counts (extract_emotions [''I am sad and calm'', ''so happy''])) ''happy''
     \<le> count_of (emotion_counts (extract_emotions [''I am sad and calm'', ''so happy''])) ''sad'' \<and>
   map fst (emotion_counts (extract_emotions [''I am sad and calm'', ''so happy'']))
     = [''sad'', ''calm'', ''happy'']"
proof -
  have d: "dominant_emotion (extract_emotions [''I am sad and calm'', ''so happy'']) = Some ''sad''"
    by code_simp
  have k: "first_seen (concat (map matched_categories [''I am sad and calm'', ''so happy'']))
      = [''sad'', ''calm'', ''happy'']"
    by code_simp
  show ?thesis
    using dominant_emotion_first_highest [of "[''I am sad and calm'', ''so happy'']" "''sad''"] d k
    by simp
qed

section \<open>Captured groups\<close>

lemma str_match_length: "str_match ic p s = Some s' \<Longrightarrow> length s' \<le> length s"
  by (induction ic p s rule: str_match.induct) (auto split: if_splits)

lemma rmatch_length:
  "(s', g') \<in> set (rmatch ic r (s, g)) \<Longrightarrow> length s' \<le> length s"
proof (induction r arbitrary: s g s' g')
  case (Str p)
  then have "str_match ic p s = Some s'" by (auto split: option.splits)
  then show ?case by (rule str_match_length)
next
  case (One k)
  then show ?case by (auto split: list.splits if_splits)
next
  case (Many1 k)
  then show ?case by auto
next
  case (Many1Lazy k)
  then show ?case by auto
next
  case (Seq a b)
  from Seq.prems obtain s1 g1 where 1: "(s1, g1) \<in> set (rmatch ic a (s, g))"
    and 2: "(s', g') \<in> set (rmatch ic b (s1, g1))"
    by auto
  from Seq.IH(1) [OF 1] Seq.IH(2) [OF 2] show ?case by simp
next
  case (Alt a b)
  then show ?case by auto
next
  case (Opt a)
  then show ?case by auto
next
  case (Grp n a)
  then show ?case by auto
next
  case Eos
  then show ?case by (auto split: if_splits)
qed

lemma rmatch_preserves:
  "(s', g') \<in> set (rmatch ic r (s, g)) \<Longrightarrow> \<not> has_group n r \<Longrightarrow> g' n = g n"
proof (induction r arbitrary: s g s' g')
  case (Str p)
  then show ?case by (auto split: option.splits)
next
  case (One k)
  then show ?case by (auto split: list.splits if_splits)
next
  case (Many1 k)
  then show ?case by auto
next
  case (Many1Lazy k)
  then show ?case by auto
next
  case (Seq a b)
  from Seq.prems obtain s1 g1 where 1: "(s1, g1) \<in> set (rmatch ic a (s, g))"
    and 2: "(s', g') \<in> set (rmatch ic b (s1, g1))"
    by auto
  from Seq.IH(1) [OF 1] Seq.IH(2) [OF 2] Seq.prems(2) show ?case by simp
next
  case (Alt a b)
  then show ?case by auto
next
  case (Opt a)
  then show ?case by auto
next
  case (Grp m a)
  then show ?case by auto
next
  case Eos
  then show ?case by (auto split: if_splits)
qed

lemma captures_Seq_left:
  "captures_as ic n Q a \<Longrightarrow> \<not> has_group n b \<Longrightarrow> captures_as ic n Q (Seq a b)"
  unfolding captures_as_def
proof (intro allI impI)
  fix s g s' g'
  assume a: "\<forall>s g s' g'. (s', g') \<in> set (rmatch ic a (s, g)) \<longrightarrow> (\<exists>v. g' n = Some v \<and> Q v)"
    and b: "\<not> has_group n b" and m: "(s', g') \<in> set (rmatch ic (Seq a b) (s, g))"
  from m obtain s1 g1 where 1: "(s1, g1) \<in> set (rmatch ic a (s, g))"
    and 2: "(s', g') \<in> set (rmatch ic b (s1, g1))"
    by auto
  from rmatch_preserves [OF 2 b] a 1 show "\<exists>v. g' n = Some v \<and> Q v" by auto
qed

lemma captures_Seq_right: "captures_as ic n Q b \<Longrightarrow> captures_as ic n Q (Seq a b)"
  unfolding captures_as_def by auto

lemma captures_Grp_any: "\<not> has_group n a \<Longrightarrow> captures_as ic n (\<lambda>v. True) (Grp n a)"
  unfolding captures_as_def by auto

lemma captures_Grp_first:
  assumes "\<not> has_group n a"
  shows "captures_as ic n (\<lambda>v. v \<noteq> [] \<and> in_cset ic k (hd v)) (Grp n (Seq (One k) a))"
  unfolding captures_as_def
proof (intro allI impI)
  fix s g s' g'
  assume "(s', g') \<in> set (rmatch ic (Grp n (Seq (One k) a)) (s, g))"
  then obtain g0 where m: "(s', g0) \<in> set (rmatch ic (Seq (One k) a) (s, g))"
    and g': "g' = g0(n \<mapsto> take (length s - length s') s)"
    by auto
  from m obtain s1 g1 where 1: "(s1, g1) \<in> set (rmatch ic (One k) (s, g))"
    and 2: "(s', g0) \<in> set (rmatch ic a (s1, g1))"
    by auto
  from 1 obtain c where s: "s = c # s1" and c: "in_cset ic k c"
    by (auto split: list.splits if_splits)
  from rmatch_length [OF 2] s have "length s' < length s" by simp
  then obtain j where j: "length s - length s' = Suc j"
    by (cases "length s - length s'") auto
  have "take (length s - length s') s = c # take j s1"
    using j by (simp add: s)
  with g' c show "\<exists>v. g' n = Some v \<and> v \<noteq> [] \<and> in_cset ic k (hd v)" by simp
qed

lemma search_captures:
  "search ic r s = Some m \<Longrightarrow> captures_as ic n Q r \<Longrightarrow> \<exists>v. groups m n = Some v \<and> Q v"
proof (induction s)
  case Nil
  then obtain x xs where "rmatch ic r ([], Map.empty) = x # xs" and "m = mk_match r x"
    by (auto split: list.splits)
  then have "(fst x, snd x) \<in> set (rmatch ic r ([], Map.empty))" "groups m = snd x"
    by (auto simp: mk_match_def)
  with Nil.prems(2) show ?case unfolding captures_as_def by metis
next
  case (Cons c cs)
  show ?case
  proof (cases "rmatch ic r (c # cs, Map.empty)")
    case Nil
    with Cons show ?thesis by simp
  next
    case (Cons x xs)
    with Cons.prems(1) have "m = mk_match r x" by simp
    with Cons have "(fst x, snd x) \<in> set (rmatch ic r (c # cs, Map.empty))" "groups m = snd x"
      by (auto simp: mk_match_def)
    with Cons.prems(2) show ?thesis unfolding captures_as_def by metis
  qed
qed

lemma search_group_count: "search ic r s = Some m \<Longrightarrow> group_count m = ngroups r"
  by (induction s) (auto simp: mk_match_def split: list.splits)

lemma first_match_captures:
  "first_match ps s = Some m \<Longrightarrow> (\<And>p. p \<in> set ps \<Longrightarrow> captures_as True n Q p) \<Longrightarrow>
   \<exists>v. groups m n = Some v \<and> Q v"
proof (induction ps)
  case Nil
  then show ?case by simp
next
  case (Cons p ps)
  show ?case
  proof (cases "search True p s")
    case None
    with Cons show ?thesis by simp
  next
    case (Some m')
    with Cons.prems(1) have "m' = m" by simp
    with Some Cons.prems(2) [of p] show ?thesis by (auto dest: search_captures)
  qed
qed

lemma first_match_group_count:
  "first_match ps s = Some m \<Longrightarrow> (\<And>p. p \<in> set ps \<Longrightarrow> ngroups p = k) \<Longrightarrow> group_count m = k"
proof (induction ps)
  case Nil
  then show ?case by simp
next
  case (Cons p ps)
  show ?case
  proof (cases "search True p s")
    case None
    with Cons show ?thesis by simp
  next
    case (Some m')
    with Cons.prems(1) have "m' = m" by simp
    with Some Cons.prems(2) [of p] show ?thesis by (auto dest: search_group_count)
  qed
qed

lemma capitalized_word_capture:
  "captures_as True 1 (\<lambda>v. v \<noteq> [] \<and> in_cset True upper_AZ (hd v)) capitalized_word"
  unfolding capitalized_word_def by (rule captures_Grp_first) simp

lemma name_patterns_capture:
  assumes "p \<in> set name_patterns"
  shows "captures_as True 1 (\<lambda>v. v \<noteq> [] \<and> in_cset True upper_AZ (hd v)) p"
proof -
  from assms obtain pre where "p = Seq (Str pre) capitalized_word"
    unfolding name_patterns_def by auto
  then show ?thesis
    using captures_Seq_right [OF capitalized_word_capture] by simp
qed

lemma capitalized_phrase_capture:
  "captures_as True n (\<lambda>v. v \<noteq> [] \<and> in_cset True upper_AZ (hd v)) (capitalized_phrase n)"
  unfolding capitalized_phrase_def by (rule captures_Grp_first) simp

lemma location_patterns_capture:
  assumes "p \<in> set location_patterns"
  shows "captures_as True 1 (\<lambda>v. v \<noteq> [] \<and> in_cset True upper_AZ (hd v)) p"
proof -
  from assms consider pre where "p = Seq (Str pre) (capitalized_phrase 1)"
    | pre post where "p = Seq (Str pre) (Seq (capitalized_phrase 1) (Str post))"
    unfolding location_patterns_def by auto
  then show ?thesis
  proof cases
    case 1
    then show ?thesis
      using captures_Seq_right [OF capitalized_phrase_capture] by simp
  next
    case 2
    have "captures_as True 1 (\<lambda>v. v \<noteq> [] \<and> in_cset True upper_AZ (hd v))
        (Seq (capitalized_phrase 1) (Str post))"
      by (rule captures_Seq_left [OF capitalized_phrase_capture]) simp
    from captures_Seq_right [OF this] 2 show ?thesis by simp
  qed
qed

lemma role_at_company_shape:
  "role_at_company =
     Seq (Opt (Alt (Str ''a '') (Str ''an '')))
       (Seq (Grp 1 (Many1 lower_or_space))
         (Seq (Str '' '') (Seq (Alt (Str ''at'') (Str ''for'')) (Seq (Str '' '') (capitalized_phrase 2)))))"
  by (simp add: role_at_company_def)

lemma role_at_company_1: "captures_as True 1 (\<lambda>v. True) role_at_company"
  unfolding role_at_company_shape
  apply (rule captures_Seq_right)
  apply (rule captures_Seq_left)
   apply (rule captures_Grp_any)
   apply simp
  apply (simp add: capitalized_phrase_def)
  done

lemma role_at_company_2:
  "captures_as True 2 (\<lambda>v. v \<noteq> [] \<and> in_cset True upper_AZ (hd v)) role_at_company"
  unfolding role_at_company_shape
  by (intro captures_Seq_right capitalized_phrase_capture)

lemma job_patterns_shape:
  "p \<in> set job_patterns \<Longrightarrow> \<exists>pre. p = Seq (Str pre) role_at_company"
  unfolding job_patterns_def by auto

lemma job_patterns_capture_1:
  assumes "p \<in> set job_patterns"
  shows "captures_as True 1 (\<lambda>v. True) p"
  using job_patterns_shape [OF assms] captures_Seq_right [OF role_at_company_1] by auto

lemma job_patterns_capture_2:
  assumes "p \<in> set job_patterns"
  shows "captures_as True 2 (\<lambda>v. v \<noteq> [] \<and> in_cset True upper_AZ (hd v)) p"
  using job_patterns_shape [OF assms] captures_Seq_right [OF role_at_company_2] by auto

lemma job_patterns_ngroups: "p \<in> set job_patterns \<Longrightarrow> ngroups p = 2"
  unfolding job_patterns_def role_at_company_def capitalized_phrase_def by auto

lemma date_group_shape: "\<exists>r. date_group = Grp 1 (Seq (One upper_AZ) r) \<and> \<not> has_group 1 r"
  by (simp add: date_group_def)

lemma date_group_capture:
  "captures_as True 1 (\<lambda>v. v \<noteq> [] \<and> in_cset True upper_AZ (hd v)) date_group"
proof -
  from date_group_shape obtain r where r: "date_group = Grp 1 (Seq (One upper_AZ) r)"
    and n: "\<not> has_group 1 r"
    by blast
  show ?thesis unfolding r using n by (rule captures_Grp_first)
qed

lemma birthday_patterns_capture:
  assumes "p \<in> set birthday_patterns"
  shows "captures_as True 1 (\<lambda>v. v \<noteq> [] \<and> in_cset True upper_AZ (hd v)) p"
proof -
  from assms obtain a b where "p = Seq a (Seq b date_group)"
    unfolding birthday_patterns_def by auto
  then show ?thesis
    using captures_Seq_right [OF captures_Seq_right [OF date_group_capture]] by simp
qed

lemma allergy_pattern_capture: "captures_as False 1 (\<lambda>v. True) allergy_pattern"
  unfolding allergy_pattern_def
  by (rule captures_Seq_right, rule captures_Grp_any) simp

lemma code_A: "code CHR ''A'' = 65" and code_Z: "code CHR ''Z'' = 90"
  by (simp_all add: code_def)

lemma capital_not_space: "in_cset True upper_AZ c \<Longrightarrow> \<not> isspace c"
  by (auto simp: upper_AZ_def in_items_def lower_char_def upper_char_def isupper_def
      islower_def isspace_def code_A code_Z split: if_splits)

lemma strip_capitalized: "v \<noteq> [] \<Longrightarrow> in_cset True upper_AZ (hd v) \<Longrightarrow> strip v \<noteq> []"
  by (cases v) (auto simp: strip_def dest: capital_not_space)

lemma extract_name_effect:
  "extract_name f m = f\<lparr>name := keep_first truthy_str (name f) (name_value m)\<rparr>"
proof (cases "first_match name_patterns m")
  case None
  then show ?thesis by (simp add: extract_name_def keep_first_def name_value_def)
next
  case (Some mt)
  from first_match_captures [OF Some name_patterns_capture]
  obtain v where "groups mt 1 = Some v" by blast
  with Some show ?thesis by (simp add: extract_name_def keep_first_def name_value_def)
qed

lemma scan_location_total:
  "(\<And>p. p \<in> set ps \<Longrightarrow> captures_as True 1 Q p) \<Longrightarrow> \<exists>r. scan_location ps m = Inr r"
proof (induction ps)
  case Nil
  show ?case by simp
next
  case (Cons p ps)
  from Cons have ih: "\<exists>r. scan_location ps m = Inr r" by simp
  show ?case
  proof (cases "search True p m")
    case None
    with ih show ?thesis by simp
  next
    case (Some mt)
    from search_captures [OF Some Cons.prems [of p]] obtain v where "groups mt 1 = Some v"
      by auto
    with Some ih show ?thesis by (auto simp: group_strip_def)
  qed
qed

lemma scan_location_value: "scan_location location_patterns m = Inr (location_value m)"
  using scan_location_total [of location_patterns _ m, OF location_patterns_capture]
  by (auto simp: location_value_def)

lemma extract_location_effect:
  "extract_location f m =
     Inr (f\<lparr>city := keep_first truthy_str (city f) (location_value m),
            location := (if truthy_str (city f) then location f
                         else case location_value m of None \<Rightarrow> location f | Some v \<Rightarrow> Some v)\<rparr>)"
  by (simp add: extract_location_def scan_location_value keep_first_def split: option.split)

lemma extract_job_effect:
  "extract_job f m =
     Inr (f\<lparr>job_role := keep_first truthy_str (job_role f) (map_option fst (job_value m)),
            company := (if truthy_str (job_role f) then company f
                        else case job_value m of None \<Rightarrow> company f | Some rc \<Rightarrow> Some (snd rc))\<rparr>)"
proof (cases "first_match job_patterns m")
  case None
  then show ?thesis by (simp add: extract_job_def keep_first_def job_value_def)
next
  case (Some mt)
  from first_match_captures [OF Some job_patterns_capture_1]
  obtain r where r: "groups mt 1 = Some r" by blast
  from first_match_captures [OF Some job_patterns_capture_2]
  obtain c where c: "groups mt 2 = Some c" by blast
  from first_match_group_count [OF Some job_patterns_ngroups]
  have n: "group_count mt = 2" by simp
  from Some r c n show ?thesis
    by (simp add: extract_job_def keep_first_def job_value_def group_strip_def)
qed

lemma extract_birthday_effect:
  "extract_birthday f m =
     Inr (f\<lparr>birthday := keep_first truthy_str (birthday f) (birthday_value m)\<rparr>)"
proof (cases "first_match birthday_patterns m")
  case None
  then show ?thesis by (simp add: extract_birthday_def keep_first_def birthday_value_def)
next
  case (Some mt)
  from first_match_captures [OF Some birthday_patterns_capture]
  obtain v where "groups mt 1 = Some v" by blast
  with Some show ?thesis
    by (simp add: extract_birthday_def keep_first_def birthday_value_def group_strip_def)
qed

lemma extract_age_effect:
  "extract_age f m = f\<lparr>age := keep_first truthy_int (age f) (age_value m)\<rparr>"
  by (simp add: extract_age_def keep_first_def age_value_def split: option.split)

lemma extract_dietary_effect:
  "extract_dietary f (lower m) =
     f\<lparr>dietary_preferences := dietary_preferences f @ dietary_words m\<rparr>"
  by (simp add: extract_dietary_def dietary_words_def Let_def)

lemma str_match_startswith:
  "str_match False p s = (if startswith s p then Some (drop (length p) s) else None)"
proof (induction p arbitrary: s)
  case Nil
  show ?case by simp
next
  case (Cons a p)
  show ?case by (cases s) (simp_all add: Cons.IH char_eq_def eq_commute)
qed

lemma not_dot: "in_cset False (Neg [Ch CHR ''.'']) = (\<lambda>c. c \<noteq> CHR ''.'')"
  by (auto simp: in_items_def)

lemma rev_upt_Suc: "0 < L \<Longrightarrow> rev [1..<Suc L] = L # rev [1..<L]"
  by simp

lemma group_take:
  "\<forall>j\<in>set js. j \<le> length t \<Longrightarrow>
   map (\<lambda>(s', g'). (s', g'(n \<mapsto> take (length t - length s') t))) (map (\<lambda>j. (drop j t, g)) js)
     = map (\<lambda>j. (drop j t, g(n \<mapsto> take j t))) js"
  by (induction js) auto

lemma rmatch_marker_group:
  "rmatch False (Seq (Str p) (Grp n (Many1 k))) (s, g) =
     (if startswith s p
      then map (\<lambda>j. (drop j (drop (length p) s), g(n \<mapsto> take j (drop (length p) s))))
             (rev [1..<Suc (length (takeWhile (in_cset False k) (drop (length p) s)))])
      else [])"
proof (cases "startswith s p")
  case False
  then show ?thesis by (simp add: str_match_startswith)
next
  case True
  define t where "t = drop (length p) s"
  define js where "js = rev [1..<Suc (length (takeWhile (in_cset False k) t))]"
  have "\<forall>j\<in>set js. j \<le> length t"
    unfolding js_def using length_takeWhile_le [of "in_cset False k" t] by auto
  from group_take [OF this]
  have "rmatch False (Grp n (Many1 k)) (t, g) = map (\<lambda>j. (drop j t, g(n \<mapsto> take j t))) js"
    unfolding js_def by (simp del: upt_Suc)
  with True show ?thesis
    unfolding js_def t_def by (simp add: str_match_startswith del: upt_Suc)
qed

lemma marker_search:
  "(case search False (Seq (Str p) (Grp 1 (Many1 (Neg [Ch CHR ''.''])))) s of
      None \<Rightarrow> None
    | Some m \<Rightarrow> groups m 1) = text_after p s"
proof (induction s)
  case Nil
  show ?case by (simp add: rmatch_marker_group del: rmatch.simps)
next
  case (Cons c cs)
  define t where "t = drop (length p) (c # cs)"
  define L where "L = length (takeWhile (\<lambda>c. c \<noteq> CHR ''.'') t)"
  have rm: "rmatch False (Seq (Str p) (Grp 1 (Many1 (Neg [Ch CHR ''.''])))) (c # cs, Map.empty) =
     (if startswith (c # cs) p
      then map (\<lambda>j. (drop j t, [1 \<mapsto> take j t])) (rev [1..<Suc L])
      else [])"
    unfolding rmatch_marker_group not_dot t_def L_def ..
  show ?case
  proof (cases "startswith (c # cs) p \<and> takeWhile (\<lambda>x. x \<noteq> CHR ''.'') t \<noteq> []")
    case True
    then have "0 < L" by (simp add: L_def)
    from rev_upt_Suc [OF this] True
    have "rmatch False (Seq (Str p) (Grp 1 (Many1 (Neg [Ch CHR ''.''])))) (c # cs, Map.empty)
        = (drop L t, [1 \<mapsto> take L t]) # map (\<lambda>j. (drop j t, [1 \<mapsto> take j t])) (rev [1..<L])"
      unfolding rm by simp
    moreover have "take L t = takeWhile (\<lambda>x. x \<noteq> CHR ''.'') t"
      unfolding L_def by (rule takeWhile_eq_take [symmetric])
    ultimately show ?thesis
      using True by (simp add: mk_match_def t_def del: rmatch.simps)
  next
    case False
    then have "rmatch False (Seq (Str p) (Grp 1 (Many1 (Neg [Ch CHR ''.''])))) (c # cs, Map.empty) = []"
      unfolding rm by (auto simp: L_def)
    with False Cons.IH show ?thesis
      by (auto simp: t_def simp del: rmatch.simps)
  qed
qed

lemma allergy_search:
  "(case search False allergy_pattern s of None \<Rightarrow> None | Some m \<Rightarrow> groups m 1) = allergy_text s"
  unfolding allergy_pattern_def allergy_text_def by (rule marker_search)

lemma extract_allergies_effect:
  "extract_allergies f (lower m) = Inr (f\<lparr>allergies := allergies f @ allergy_segments m\<rparr>)"
proof (cases "search False allergy_pattern (lower m)")
  case None
  with allergy_search [of "lower m"] have "allergy_text (lower m) = None" by simp
  with None show ?thesis by (simp add: extract_allergies_def allergy_segments_def)
next
  case (Some mt)
  from search_captures [OF Some allergy_pattern_capture] obtain v where v: "groups mt 1 = Some v"
    by blast
  with Some allergy_search [of "lower m"] have "allergy_text (lower m) = Some v" by simp
  with Some v show ?thesis by (simp add: extract_allergies_def allergy_segments_def)
qed

lemma process_message_effect: "process_message f m = Inr (message_effect f m)"
  by (cases f)
    (simp add: process_message_def Let_def extract_name_effect extract_location_effect
      extract_job_effect extract_birthday_effect extract_age_effect extract_allergies_effect
      extract_dietary_effect message_effect_def split: option.split)

lemma process_messages_effect: "process_messages f msgs = Inr (foldl message_effect f msgs)"
  by (induction msgs arbitrary: f) (simp_all add: process_message_effect)

lemma first_value_Nil: "first_value v [] = None"
  by (simp add: first_value_def)

lemma first_value_Cons:
  "first_value v (m # ms) = (case v m of None \<Rightarrow> first_value v ms | Some x \<Rightarrow> Some x)"
  by (auto simp: first_value_def split: option.splits)

lemma keep_first_stable:
  "truthy cur \<Longrightarrow> foldl (\<lambda>cur m. keep_first truthy cur (v m)) cur ms = cur"
  by (induction ms) (simp_all add: keep_first_def)

lemma keep_first_none:
  "\<not> truthy None \<Longrightarrow> first_value v ms = None \<Longrightarrow>
   foldl (\<lambda>cur m. keep_first truthy cur (v m)) None ms = None"
proof (induction ms)
  case Nil
  show ?case by simp
next
  case (Cons m ms)
  from Cons.prems(2) have "v m = None" "first_value v ms = None"
    by (auto simp: first_value_Cons split: option.splits)
  with Cons show ?case by (simp add: keep_first_def)
qed

lemma keep_first_some:
  "\<not> truthy None \<Longrightarrow> first_value v ms = Some x \<Longrightarrow> truthy (Some x) \<Longrightarrow>
   foldl (\<lambda>cur m. keep_first truthy cur (v m)) None ms = Some x"
proof (induction ms)
  case Nil
  then show ?case by (simp add: first_value_Nil)
next
  case (Cons m ms)
  show ?case
  proof (cases "v m")
    case None
    with Cons show ?thesis by (simp add: first_value_Cons keep_first_def)
  next
    case (Some y)
    with Cons.prems have "y = x" by (simp add: first_value_Cons)
    with Some Cons.prems(1) have "keep_first truthy None (v m) = Some x"
      by (simp add: keep_first_def)
    with keep_first_stable [of truthy "Some x" v ms] Cons.prems(3) show ?thesis
      by simp
  qed
qed

lemma keep_first_first_value:
  assumes "\<not> truthy None" and "\<And>m x. v m = Some x \<Longrightarrow> truthy (Some x)"
  shows "foldl (\<lambda>cur m. keep_first truthy cur (v m)) None ms = first_value v ms"
proof (cases "first_value v ms")
  case None
  with assms(1) show ?thesis by (simp add: keep_first_none)
next
  case (Some x)
  then obtain m where "v m = Some x"
    by (auto simp: first_value_def split: option.splits)
  with assms(2) have "truthy (Some x)" by blast
  with assms(1) Some show ?thesis by (simp add: keep_first_some)
qed

lemma name_fold:
  "name (foldl message_effect f ms) =
     foldl (\<lambda>cur m. keep_first truthy_str cur (name_value m)) (name f) ms"
  by (induction ms arbitrary: f) (simp_all add: message_effect_def)

lemma city_fold:
  "city (foldl message_effect f ms) =
     foldl (\<lambda>cur m. keep_first truthy_str cur (location_value m)) (city f) ms"
  by (induction ms arbitrary: f) (simp_all add: message_effect_def)

lemma birthday_fold:
  "birthday (foldl message_effect f ms) =
     foldl (\<lambda>cur m. keep_first truthy_str cur (birthday_value m)) (birthday f) ms"
  by (induction ms arbitrary: f) (simp_all add: message_effect_def)

lemma age_fold:
  "age (foldl message_effect f ms) =
     foldl (\<lambda>cur m. keep_first truthy_int cur (age_value m)) (age f) ms"
  by (induction ms arbitrary: f) (simp_all add: message_effect_def)


lemma location_fold:
  "location f = city f \<Longrightarrow> location (foldl message_effect f ms) = city (foldl message_effect f ms)"
proof (induction ms arbitrary: f)
  case Nil
  then show ?case by simp
next
  case (Cons m ms)
  have "location (message_effect f m) = city (message_effect f m)"
    using Cons.prems by (simp add: message_effect_def keep_first_def split: option.split)
  from Cons.IH [OF this] show ?case by simp
qed

lemma job_stable:
  "truthy_str (job_role f) \<Longrightarrow>
   job_role (foldl message_effect f ms) = job_role f \<and>
   company (foldl message_effect f ms) = company f"
proof (induction ms arbitrary: f)
  case Nil
  show ?case by simp
next
  case (Cons m ms)
  have "job_role (message_effect f m) = job_role f" "company (message_effect f m) = company f"
    using Cons.prems by (simp_all add: message_effect_def keep_first_def)
  with Cons.IH [of "message_effect f m"] Cons.prems show ?case by simp
qed

lemma job_none:
  "first_value job_value ms = None \<Longrightarrow> \<not> truthy_str (job_role f) \<Longrightarrow>
   job_role (foldl message_effect f ms) = job_role f \<and>
   company (foldl message_effect f ms) = company f"
proof (induction ms arbitrary: f)
  case Nil
  show ?case by simp
next
  case (Cons m ms)
  from Cons.prems(1) have v: "job_value m = None" "first_value job_value ms = None"
    by (auto simp: first_value_Cons split: option.splits)
  have "job_role (message_effect f m) = job_role f" "company (message_effect f m) = company f"
    using v Cons.prems(2) by (simp_all add: message_effect_def keep_first_def)
  with Cons.IH [of "message_effect f m"] v Cons.prems(2) show ?case by simp
qed

lemma job_some:
  "first_value job_value ms = Some (r, c) \<Longrightarrow> r \<noteq> [] \<Longrightarrow> \<not> truthy_str (job_role f) \<Longrightarrow>
   job_role (foldl message_effect f ms) = Some r \<and>
   company (foldl message_effect f ms) = Some c"
proof (induction ms arbitrary: f)
  case Nil
  then show ?case by (simp add: first_value_Nil)
next
  case (Cons m ms)
  show ?case
  proof (cases "job_value m")
    case None
    then have "job_role (message_effect f m) = job_role f"
      using Cons.prems(3) by (simp add: message_effect_def keep_first_def)
    with Cons.IH [of "message_effect f m"] Cons.prems None show ?thesis
      by (simp add: first_value_Cons)
  next
    case (Some rc)
    with Cons.prems(1) have rc: "rc = (r, c)" by (simp add: first_value_Cons)
    have "job_role (message_effect f m) = Some r" "company (message_effect f m) = Some c"
      using Some rc Cons.prems(3) by (simp_all add: message_effect_def keep_first_def)
    with job_stable [of "message_effect f m" ms] Cons.prems(2) show ?thesis by simp
  qed
qed

lemma name_value_truthy: "name_value m = Some x \<Longrightarrow> x \<noteq> []"
  by (auto simp: name_value_def split: option.splits
      dest!: first_match_captures [OF _ name_patterns_capture])

lemma birthday_value_truthy:
  assumes "birthday_value m = Some x"
  shows "x \<noteq> []"
proof -
  from assms obtain mt where mt: "first_match birthday_patterns m = Some mt"
    by (auto simp: birthday_value_def split: option.splits)
  from first_match_captures [OF mt birthday_patterns_capture]
  obtain v where v: "groups mt 1 = Some v" "v \<noteq> []" "in_cset True upper_AZ (hd v)"
    by blast
  from v(2,3) have "strip v \<noteq> []" by (rule strip_capitalized)
  with assms mt v(1) show ?thesis by (simp add: birthday_value_def)
qed

lemma job_value_matches: "(job_value m \<noteq> None) = (first_match job_patterns m \<noteq> None)"
proof (cases "first_match job_patterns m")
  case None
  then show ?thesis by (simp add: job_value_def)
next
  case (Some mt)
  from first_match_captures [OF Some job_patterns_capture_1]
    first_match_captures [OF Some job_patterns_capture_2] Some
  show ?thesis by (auto simp: job_value_def)
qed

lemma job_value_company:
  assumes a: "job_value m = Some (r, c)"
  shows "c \<noteq> []"
proof -
  from a obtain mt where mt: "first_match job_patterns m = Some mt"
    by (auto simp: job_value_def split: option.splits)
  from first_match_captures [OF mt job_patterns_capture_2]
  obtain v where v: "groups mt 2 = Some v" "v \<noteq> []" "in_cset True upper_AZ (hd v)"
    by blast
  from v(2,3) have "strip v \<noteq> []" by (rule strip_capitalized)
  with a mt v(1) show ?thesis by (auto simp: job_value_def split: option.splits)
qed

lemma scan_location_accepts: "scan_location ps m = Inr (Some loc) \<Longrightarrow> 2 < length loc"
  by (induction ps) (auto split: option.splits sum.splits if_splits)

lemma location_value_truthy: "location_value m = Some x \<Longrightarrow> x \<noteq> []"
  using scan_location_accepts [of location_patterns m x]
  by (auto simp: location_value_def split: sum.splits)

lemma stated_value_Nil: "stated_value post ps [] = None"
  by (simp add: stated_value_def)

lemma stated_value_Cons:
  "stated_value post ps (m # ms) =
     (case first_match ps m of
        None \<Rightarrow> stated_value post ps ms
      | Some mt \<Rightarrow> map_option post (groups mt 1))"
  by (simp add: stated_value_def split: option.splits)

lemma stated_name: "stated_value (\<lambda>v. v) name_patterns ms = first_value name_value ms"
proof (induction ms)
  case Nil
  show ?case by (simp add: stated_value_Nil first_value_Nil)
next
  case (Cons m ms)
  show ?case
  proof (cases "first_match name_patterns m")
    case None
    with Cons show ?thesis
      by (simp add: stated_value_Cons first_value_Cons name_value_def)
  next
    case (Some mt)
    from first_match_captures [OF Some name_patterns_capture]
    obtain v where "groups mt 1 = Some v" by blast
    with Some show ?thesis
      by (simp add: stated_value_Cons first_value_Cons name_value_def)
  qed
qed

lemma stated_birthday: "stated_value strip birthday_patterns ms = first_value birthday_value ms"
proof (induction ms)
  case Nil
  show ?case by (simp add: stated_value_Nil first_value_Nil)
next
  case (Cons m ms)
  show ?case
  proof (cases "first_match birthday_patterns m")
    case None
    with Cons show ?thesis
      by (simp add: stated_value_Cons first_value_Cons birthday_value_def)
  next
    case (Some mt)
    from first_match_captures [OF Some birthday_patterns_capture]
    obtain v where "groups mt 1 = Some v" by blast
    with Some show ?thesis
      by (simp add: stated_value_Cons first_value_Cons birthday_value_def)
  qed
qed

lemma extract_personal_facts_effect:
  "extract_personal_facts ms = Inr (clean_up (foldl message_effect initial_facts ms))"
  by (simp add: extract_personal_facts_def process_messages_effect)

lemma first_value_source: "first_value v ms = Some x \<Longrightarrow> \<exists>m. v m = Some x"
  by (auto simp: first_value_def split: option.splits)

lemma keep_str_first_value:
  assumes "\<And>m x. v m = Some x \<Longrightarrow> x \<noteq> []"
  shows "keep_str (first_value v ms) = first_value v ms"
proof (cases "first_value v ms")
  case None
  then show ?thesis by (simp add: keep_str_def)
next
  case (Some x)
  from first_value_source [OF Some] assms have "x \<noteq> []" by blast
  with Some show ?thesis by (simp add: keep_str_def)
qed

lemma internal_name:
  "name (foldl message_effect initial_facts ms) = first_value name_value ms"
  unfolding name_fold
  by (simp add: initial_facts_def keep_first_first_value name_value_truthy)

lemma internal_city:
  "city (foldl message_effect initial_facts ms) = first_value location_value ms"
  unfolding city_fold
  by (simp add: initial_facts_def keep_first_first_value location_value_truthy)

lemma internal_location:
  "location (foldl message_effect initial_facts ms) = first_value location_value ms"
  using location_fold [of initial_facts ms] internal_city [of ms]
  by (simp add: initial_facts_def)

lemma internal_birthday:
  "birthday (foldl message_effect initial_facts ms) = first_value birthday_value ms"
  unfolding birthday_fold
  by (simp add: initial_facts_def keep_first_first_value birthday_value_truthy)

lemma result_fields:
  "name (clean_up f) = keep_str (name f)" "city (clean_up f) = keep_str (city f)"
  "location (clean_up f) = keep_str (location f)" "job_role (clean_up f) = keep_str (job_role f)"
  "company (clean_up f) = keep_str (company f)" "birthday (clean_up f) = keep_str (birthday f)"
  "age (clean_up f) = keep_int (age f)" "allergies (clean_up f) = allergies f"
  by (simp_all add: clean_up_def)

lemma keep_str_present: "keep_str v \<noteq> None \<Longrightarrow> truthy_str v \<and> keep_str v = v"
  by (simp add: keep_str_def split: if_splits)

lemma keep_int_present: "keep_int v \<noteq> None \<Longrightarrow> truthy_int v \<and> keep_int v = v"
  by (simp add: keep_int_def split: if_splits)

lemma never_overwritten:
  fixes ms more :: "string list"
  defines "f \<equiv> foldl message_effect initial_facts ms"
    and "f' \<equiv> foldl message_effect initial_facts (ms @ more)"
  shows "name (clean_up f) \<noteq> None \<Longrightarrow> name (clean_up f') = name (clean_up f)"
    and "city (clean_up f) \<noteq> None \<Longrightarrow> city (clean_up f') = city (clean_up f)"
    and "location (clean_up f) \<noteq> None \<Longrightarrow> location (clean_up f') = location (clean_up f)"
    and "job_role (clean_up f) \<noteq> None \<Longrightarrow>
         job_role (clean_up f') = job_role (clean_up f) \<and> company (clean_up f') = company (clean_up f)"
    and "birthday (clean_up f) \<noteq> None \<Longrightarrow> birthday (clean_up f') = birthday (clean_up f)"
    and "age (clean_up f) \<noteq> None \<Longrightarrow> age (clean_up f') = age (clean_up f)"
proof -
  have f': "f' = foldl message_effect f more"
    by (simp add: f_def f'_def)
  show "name (clean_up f) \<noteq> None \<Longrightarrow> name (clean_up f') = name (clean_up f)"
    unfolding result_fields f' name_fold
    by (drule keep_str_present) (simp add: keep_first_stable)
  show "city (clean_up f) \<noteq> None \<Longrightarrow> city (clean_up f') = city (clean_up f)"
    unfolding result_fields f' city_fold
    by (drule keep_str_present) (simp add: keep_first_stable)
  have loc: "location f = city f" "location f' = city f'"
    unfolding f_def f'_def
    using location_fold [of initial_facts ms] location_fold [of initial_facts "ms @ more"]
    by (simp_all add: initial_facts_def del: foldl_append)
  show "location (clean_up f) \<noteq> None \<Longrightarrow> location (clean_up f') = location (clean_up f)"
    unfolding result_fields loc unfolding f' city_fold
    by (drule keep_str_present) (simp add: keep_first_stable)
  show "job_role (clean_up f) \<noteq> None \<Longrightarrow>
        job_role (clean_up f') = job_role (clean_up f) \<and> company (clean_up f') = company (clean_up f)"
    unfolding result_fields f'
    by (drule keep_str_present) (simp add: job_stable)
  show "birthday (clean_up f) \<noteq> None \<Longrightarrow> birthday (clean_up f') = birthday (clean_up f)"
    unfolding result_fields f' birthday_fold
    by (drule keep_str_present) (simp add: keep_first_stable)
  show "age (clean_up f) \<noteq> None \<Longrightarrow> age (clean_up f') = age (clean_up f)"
    unfolding result_fields f' age_fold
    by (drule keep_int_present) (simp add: keep_first_stable)
qed

lemma result_job_none:
  assumes "first_value job_value ms = None"
  shows "job_role (clean_up (foldl message_effect initial_facts ms)) = None"
    and "company (clean_up (foldl message_effect initial_facts ms)) = None"
  using job_none [OF assms, of initial_facts]
  by (simp_all add: result_fields initial_facts_def keep_str_def)

lemma result_job_some:
  assumes "first_value job_value ms = Some (r, c)" and "r \<noteq> []"
  shows "job_role (clean_up (foldl message_effect initial_facts ms)) = Some r"
    and "company (clean_up (foldl message_effect initial_facts ms)) = Some c"
proof -
  from first_value_source [OF assms(1)] have "c \<noteq> []"
    by (auto dest: job_value_company)
  with job_some [OF assms, of initial_facts] assms(2)
  show "job_role (clean_up (foldl message_effect initial_facts ms)) = Some r"
    and "company (clean_up (foldl message_effect initial_facts ms)) = Some c"
    by (simp_all add: result_fields initial_facts_def keep_str_def)
qed

lemma result_age_none:
  "first_value age_value ms = None \<Longrightarrow> age (clean_up (foldl message_effect initial_facts ms)) = None"
  unfolding result_fields age_fold
  by (simp add: initial_facts_def keep_first_none keep_int_def)

lemma result_age_some:
  "first_value age_value ms = Some n \<Longrightarrow> n \<noteq> 0 \<Longrightarrow>
   age (clean_up (foldl message_effect initial_facts ms)) = Some n"
  unfolding result_fields age_fold
  by (simp add: initial_facts_def keep_first_some keep_int_def)

text \<open>
  Claim C1, as amended. \<open>extract_personal_facts\<close> never raises. The name and the
  birthday are the value extracted from the first message, in order, that matches one of
  the category's patterns. The city and the location are equal, and are the first
  candidate that passes the filter (not \<open>The\<close>, \<open>A\<close> or \<open>An\<close>, longer than 2
  characters), a message all of whose candidates are rejected being passed over. When
  no message matches a job pattern, job_role and company are absent; when the first
  message that matches one gives a role that is not empty, they are its role and
  company. When no message gives an age, the age is absent; when the first message
  whose age converts gives an integer other than 0, the age is that integer. A field
  present in the result for a list of messages has the same value in the result for
  any longer list (the company as long as the job_role is present).
\<close>

theorem extract_personal_facts_first_match:
  "\<exists>f. extract_personal_facts messages = Inr f \<and>
     name f = stated_value (\<lambda>v. v) name_patterns messages \<and>
     birthday f = stated_value strip birthday_patterns messages \<and>
     city f = first_value location_value messages \<and>
     location f = city f \<and>
     (\<forall>m. (job_value m \<noteq> None) = (first_match job_patterns m \<noteq> None)) \<and>
     (first_value job_value messages = None \<longrightarrow> job_role f = None \<and> company f = None) \<and>
     (\<forall>r c. first_value job_value messages = Some (r, c) \<and> r \<noteq> [] \<longrightarrow>
        job_role f = Some r \<and> company f = Some c) \<and>
     (first_value age_value messages = None \<longrightarrow> age f = None) \<and>
     (\<forall>n. first_value age_value messages = Some n \<and> n \<noteq> 0 \<longrightarrow> age f = Some n) \<and>
     (\<forall>more. \<exists>f'. extract_personal_facts (messages @ more) = Inr f' \<and>
        (name f \<noteq> None \<longrightarrow> name f' = name f) \<and>
        (city f \<noteq> None \<longrightarrow> city f' = city f) \<and>
        (location f \<noteq> None \<longrightarrow> location f' = location f) \<and>
        (job_role f \<noteq> None \<longrightarrow> job_role f' = job_role f \<and> company f' = company f) \<and>
        (birthday f \<noteq> None \<longrightarrow> birthday f' = birthday f) \<and>
        (age f \<noteq> None \<longrightarrow> age f' = age f))"
proof -
  let ?f = "clean_up (foldl message_effect initial_facts messages)"
  have 1: "name ?f = stated_value (\<lambda>v. v) name_patterns messages"
    by (simp add: result_fields internal_name stated_name keep_str_first_value name_value_truthy)
  have 2: "birthday ?f = stated_value strip birthday_patterns messages"
    by (simp add: result_fields internal_birthday stated_birthday keep_str_first_value
        birthday_value_truthy)
  have 3: "city ?f = first_value location_value messages"
    by (simp add: result_fields internal_city keep_str_first_value location_value_truthy)
  have 4: "location ?f = city ?f"
    by (simp add: result_fields internal_city internal_location)
  have 5: "\<forall>more. \<exists>f'. extract_personal_facts (messages @ more) = Inr f' \<and>
        (name ?f \<noteq> None \<longrightarrow> name f' = name ?f) \<and>
        (city ?f \<noteq> None \<longrightarrow> city f' = city ?f) \<and>
        (location ?f \<noteq> None \<longrightarrow> location f' = location ?f) \<and>
        (job_role ?f \<noteq> None \<longrightarrow> job_role f' = job_role ?f \<and> company f' = company ?f) \<and>
        (birthday ?f \<noteq> None \<longrightarrow> birthday f' = birthday ?f) \<and>
        (age ?f \<noteq> None \<longrightarrow> age f' = age ?f)"
  proof
    fix more
    show "\<exists>f'. extract_personal_facts (messages @ more) = Inr f' \<and>
        (name ?f \<noteq> None \<longrightarrow> name f' = name ?f) \<and>
        (city ?f \<noteq> None \<longrightarrow> city f' = city ?f) \<and>
        (location ?f \<noteq> None \<longrightarrow> location f' = location ?f) \<and>
        (job_role ?f \<noteq> None \<longrightarrow> job_role f' = job_role ?f \<and> company f' = company ?f) \<and>
        (birthday ?f \<noteq> None \<longrightarrow> birthday f' = birthday ?f) \<and>
        (age ?f \<noteq> None \<longrightarrow> age f' = age ?f)"
      unfolding extract_personal_facts_effect
      using never_overwritten [of messages more] by blast
  qed
  have 6: "first_value job_value messages = None \<longrightarrow> job_role ?f = None \<and> company ?f = None"
    using result_job_none [of messages] by simp
  have 7: "\<forall>r c. first_value job_value messages = Some (r, c) \<and> r \<noteq> [] \<longrightarrow>
        job_role ?f = Some r \<and> company ?f = Some c"
    using result_job_some [of messages] by simp
  have 8: "first_value age_value messages = None \<longrightarrow> age ?f = None"
    using result_age_none [of messages] by simp
  have 9: "\<forall>n. first_value age_value messages = Some n \<and> n \<noteq> 0 \<longrightarrow> age ?f = Some n"
    using result_age_some [of messages] by simp
  have 0: "extract_personal_facts messages = Inr ?f"
    by (rule extract_personal_facts_effect)
  have 10: "\<forall>m. (job_value m \<noteq> None) = (first_match job_patterns m \<noteq> None)"
    by (simp only: job_value_matches) simp
  from 0 1 2 3 4 10 6 7 8 9 5 show ?thesis
    by (intro exI [of _ ?f] conjI)
qed

text \<open>
  The claim C1 as stated fails on the location: the first message that matches a location
  pattern, \<open>I am from UK\<close>, extracts \<open>UK\<close>, which the filter rejects for its length;
  the city is \<open>Paris\<close>, from the second message.
\<close>

theorem first_location_match_rejected:
  "extract_personal_facts [''I am from UK'', ''I live in Paris'']
     = Inr \<lparr>name = Some ''from'', city = Some ''Paris'', location = Some ''Paris'',
            job_role = None, company = None, birthday = None, age = None, allergies = [],
            dietary_preferences = [], other_facts = []\<rparr> \<and>
   stated_value strip location_patterns [''I am from UK'', ''I live in Paris''] = Some ''UK''"
  by code_simp


theorem extract_personal_facts_first_match_witness:
  "\<exists>f. extract_personal_facts
          ([''I work as a nurse at Mercy'', ''I am 30''] @ [''I work as a cook at Joes'', ''I am 41''])
        = Inr f \<and>
      job_role f = Some ''nurse'' \<and> company f = Some ''Mercy'' \<and> age f = Some 30"
proof -
  define W where "W = [''I work as a nurse at Mercy'', ''I am 30'']"
  define M where "M = [''I work as a cook at Joes'', ''I am 41'']"
  define r where "r = ''nurse''"
  define c where "c = ''Mercy''"
  have j: "first_value job_value W = Some (r, c)"
    unfolding W_def r_def c_def by code_simp
  have r: "r \<noteq> []"
    unfolding r_def by simp
  have a: "first_value age_value W = Some 30"
    unfolding W_def by code_simp
  from extract_personal_facts_first_match [of W]
  obtain f :: facts where
    f1: "\<forall>r c. first_value job_value W = Some (r, c) \<and> r \<noteq> [] \<longrightarrow>
        job_role f = Some r \<and> company f = Some c" and
    f2: "\<forall>n. first_value age_value W = Some n \<and> n \<noteq> 0 \<longrightarrow> age f = Some n" and
    f3: "\<forall>more. \<exists>f'. extract_personal_facts (W @ more) = Inr f' \<and>
        (name f \<noteq> None \<longrightarrow> name f' = name f) \<and>
        (city f \<noteq> None \<longrightarrow> city f' = city f) \<and>
        (location f \<noteq> None \<longrightarrow> location f' = location f) \<and>
        (job_role f \<noteq> None \<longrightarrow> job_role f' = job_role f \<and> company f' = company f) \<and>
        (birthday f \<noteq> None \<longrightarrow> birthday f' = birthday f) \<and>
        (age f \<noteq> None \<longrightarrow> age f' = age f)"
    by blast
  from f1 j r have job: "job_role f = Some r" "company f = Some c"
    by blast+
  from f2 a have age: "age f = Some 30"
    by simp
  from f3 obtain f' :: facts where "extract_personal_facts (W @ M) = Inr f'"
    and "job_role f \<noteq> None \<longrightarrow> job_role f' = job_role f \<and> company f' = company f"
    and "age f \<noteq> None \<longrightarrow> age f' = age f"
    by blast
  with job age have "extract_personal_facts (W @ M) = Inr f' \<and>
      job_role f' = Some r \<and> company f' = Some c \<and> age f' = Some 30"
    by simp
  then show ?thesis
    unfolding W_def M_def r_def c_def by (rule exI)
qed

section \<open>The object of an indicator\<close>

lemma space_class: "in_cset False (Pos [Space]) = isspace"
  by (auto simp: in_items_def)

lemma not_terminator_class:
  "in_cset False not_terminator = (\<lambda>c. c \<noteq> CHR ''.'' \<and> c \<noteq> CHR ''!'' \<and> c \<noteq> CHR ''?'')"
  by (auto simp: in_items_def not_terminator_def)

lemma rmatch_Str:
  "rmatch False (Str p) (s, g) = (if startswith s p then [(drop (length p) s, g)] else [])"
  by (simp add: str_match_startswith)

lemma rmatch_spaces_Nil: "\<not> led_by_space t \<Longrightarrow> rmatch False (Many1 (Pos [Space])) (t, g) = []"
  by (cases t) (simp_all add: led_by_space_def space_class)

lemma rmatch_spaces_one:
  "isspace w \<Longrightarrow> \<not> led_by_space t \<Longrightarrow> rmatch False (Many1 (Pos [Space])) (w # t, g) = [(t, g)]"
  by (cases t) (simp_all add: led_by_space_def space_class)

lemma article_step:
  "startswith (y @ [d]) a \<Longrightarrow> \<not> isspace d \<Longrightarrow> d \<notin> set a \<Longrightarrow>
   (startswith y a \<Longrightarrow> \<not> led_by_space (drop (length a) y)) \<Longrightarrow>
   \<not> led_by_space (drop (length a) (y @ [d]))"
proof (induction a arbitrary: y)
  case Nil
  then show ?case by (cases y) (simp_all add: led_by_space_def)
next
  case (Cons x a)
  show ?case
  proof (cases y)
    case Nil
    with Cons.prems show ?thesis by simp
  next
    case (Cons z y')
    with Cons.prems Cons.IH [of y'] show ?thesis by simp
  qed
qed

lemma indicator_pattern_shape:
  "indicator_pattern ind =
     Seq (Str ind)
       (Seq (Opt (Seq (Many1 (Pos [Space])) (Alt (Str ''the'') (Alt (Str ''a'') (Str ''an'')))))
         (Seq (Many1 (Pos [Space])) (Seq (Grp 1 (Many1Lazy not_terminator)) sentence_end)))"
  by (simp add: indicator_pattern_def)

lemma sentence_end_stop: "rmatch False sentence_end (''.'', g) = [([], g)]"
  by (simp add: sentence_end_def char_eq_def)

lemma sentence_end_inside:
  "c \<noteq> CHR ''.'' \<Longrightarrow> c \<noteq> CHR ''!'' \<Longrightarrow> t \<noteq> [] \<Longrightarrow> rmatch False sentence_end (c # t, g) = []"
  by (cases t) (simp_all add: sentence_end_def char_eq_def)

lemma concat_map_last:
  "(\<And>x. x \<in> set xs \<Longrightarrow> f x = []) \<Longrightarrow> concat (map f (xs @ [n])) = f n"
  by (induction xs) simp_all

lemma takeWhile_all: "list_all P y \<Longrightarrow> \<not> P d \<Longrightarrow> takeWhile P (y @ [d]) = y"
  by (induction y) simp_all

lemma lazy_group:
  assumes "list_all (\<lambda>c. c \<noteq> CHR ''.'' \<and> c \<noteq> CHR ''!'' \<and> c \<noteq> CHR ''?'') y"
  shows "rmatch False (Grp 1 (Many1Lazy not_terminator)) (y @ ''.'', g) =
     map (\<lambda>j. (drop j (y @ ''.''), g(1 \<mapsto> take j (y @ ''.'')))) [1..<Suc (length y)]"
proof -
  have tw: "takeWhile (\<lambda>c. c \<noteq> CHR ''.'' \<and> c \<noteq> CHR ''!'' \<and> c \<noteq> CHR ''?'') (y @ ''.'') = y"
    using assms by (intro takeWhile_all) simp_all
  have "\<forall>j\<in>set [1..<Suc (length y)]. j \<le> length (y @ ''.'')"
    by auto
  from group_take [OF this, of 1 g] show ?thesis
    by (simp add: not_terminator_class tw del: upt_Suc)
qed

lemma phrase_then_stop:
  assumes nt: "list_all (\<lambda>c. c \<noteq> CHR ''.'' \<and> c \<noteq> CHR ''!'' \<and> c \<noteq> CHR ''?'') y" and ne: "y \<noteq> []"
  shows "rmatch False (Seq (Grp 1 (Many1Lazy not_terminator)) sentence_end) (y @ ''.'', g)
       = [([], g(1 \<mapsto> y))]"
proof -
  let ?f = "\<lambda>j. rmatch False sentence_end (drop j (y @ ''.''), g(1 \<mapsto> take j (y @ ''.'')))"
  from ne have upt: "[1..<Suc (length y)] = [1..<length y] @ [length y]"
    by (cases y) simp_all
  have inside: "?f j = []" if "j \<in> set [1..<length y]" for j
  proof -
    from that have j: "j < length y" by simp
    then have d: "drop j (y @ ''.'') = y ! j # (drop (Suc j) y @ ''.'')"
      by (simp add: Cons_nth_drop_Suc)
    from nt j have "y ! j \<noteq> CHR ''.''" "y ! j \<noteq> CHR ''!''"
      by (simp_all add: list_all_length)
    then show ?thesis
      unfolding d by (intro sentence_end_inside) simp_all
  qed
  have "rmatch False (Seq (Grp 1 (Many1Lazy not_terminator)) sentence_end) (y @ ''.'', g)
      = concat (map ?f [1..<Suc (length y)])"
    unfolding rmatch.simps(5) lazy_group [OF nt] map_map comp_def ..
  also have "\<dots> = ?f (length y)"
    unfolding upt using inside by (rule concat_map_last)
  also have "\<dots> = [([], g(1 \<mapsto> y))]"
    by (simp add: sentence_end_stop)
  finally show ?thesis .
qed

lemma article_dead:
  assumes sw: "startswith (y @ ''.'') a" and a: "CHR ''.'' \<notin> set a"
    and na: "startswith y a \<Longrightarrow> \<not> led_by_space (drop (length a) y)"
  shows "rmatch False (Seq (Many1 (Pos [Space])) r) (drop (length a) (y @ ''.''), g) = []"
proof -
  have "\<not> isspace CHR ''.''" by code_simp
  with article_step [of y "CHR ''.''" a] sw a na
  have "\<not> led_by_space (drop (length a) (y @ ''.''))" by simp
  then show ?thesis by (simp add: rmatch_spaces_Nil del: rmatch.simps(3))
qed

lemma concat_map_Nil: "(\<And>x. x \<in> set xs \<Longrightarrow> f x = []) \<Longrightarrow> concat (map f xs) = []"
  by (induction xs) simp_all

lemma articles_found:
  assumes "x \<in> set (rmatch False (Alt (Str ''the'') (Alt (Str ''a'') (Str ''an''))) (t, g))"
  shows "\<exists>a \<in> {''the'', ''a'', ''an''}. startswith t a \<and> x = (drop (length a) t, g)"
  using assms unfolding rmatch.simps(6) rmatch_Str by (auto split: if_splits)

lemma tail_match:
  assumes nt: "list_all (\<lambda>c. c \<noteq> CHR ''.'' \<and> c \<noteq> CHR ''!'' \<and> c \<noteq> CHR ''?'') y"
    and ne: "y \<noteq> []" and hd: "\<not> isspace (hd y)" and art: "\<not> after_article y"
  shows "rmatch False
           (Seq (Opt (Seq (Many1 (Pos [Space])) (Alt (Str ''the'') (Alt (Str ''a'') (Str ''an'')))))
             (Seq (Many1 (Pos [Space])) (Seq (Grp 1 (Many1Lazy not_terminator)) sentence_end)))
           ('' '' @ y @ ''.'', g)
       = [([], g(1 \<mapsto> y))]"
proof -
  let ?S = "Many1 (Pos [Space])"
  let ?A = "Alt (Str ''the'') (Alt (Str ''a'') (Str ''an''))"
  let ?R = "Seq ?S (Seq (Grp 1 (Many1Lazy not_terminator)) sentence_end)"
  have blank: "isspace CHR '' ''" by code_simp
  from ne hd have lead: "\<not> led_by_space (y @ ''.'')"
    by (cases y) (simp_all add: led_by_space_def)
  have spaces: "rmatch False ?S ('' '' @ y @ ''.'', g) = [(y @ ''.'', g)]"
    using rmatch_spaces_one [OF blank lead] by simp
  have rest: "rmatch False ?R ('' '' @ y @ ''.'', g) = [([], g(1 \<mapsto> y))]"
    unfolding rmatch.simps(5) [of False ?S] spaces
    using phrase_then_stop [OF nt ne, of g] by (simp del: rmatch.simps)
  have dead: "rmatch False ?R x = []" if "x \<in> set (rmatch False (Seq ?S ?A) ('' '' @ y @ ''.'', g))" for x
  proof -
    from that have "x \<in> set (rmatch False ?A (y @ ''.'', g))"
      unfolding rmatch.simps(5) [of False ?S] spaces by simp
    from articles_found [OF this] obtain a where a: "a \<in> {''the'', ''a'', ''an''}"
      and sw: "startswith (y @ ''.'') a" and x: "x = (drop (length a) (y @ ''.''), g)"
      by blast
    from a have dot: "CHR ''.'' \<notin> set a" by auto
    from a art have "startswith y a \<Longrightarrow> \<not> led_by_space (drop (length a) y)"
      by (auto simp: after_article_def)
    from article_dead [OF sw dot this] show ?thesis
      unfolding x .
  qed
  have "rmatch False (Seq (Opt (Seq ?S ?A)) ?R) ('' '' @ y @ ''.'', g)
      = concat (map (rmatch False ?R) (rmatch False (Seq ?S ?A) ('' '' @ y @ ''.'', g)))
        @ rmatch False ?R ('' '' @ y @ ''.'', g)"
    unfolding rmatch.simps(5) [of False "Opt (Seq ?S ?A)"] rmatch.simps(7)
    by (simp only: map_append concat_append list.map concat.simps append_Nil2)
  also have "\<dots> = [([], g(1 \<mapsto> y))]"
  proof -
    have "concat (map (rmatch False ?R) (rmatch False (Seq ?S ?A) ('' '' @ y @ ''.'', g))) = []"
      by (rule concat_map_Nil) (rule dead)
    then show ?thesis
      unfolding rest by (simp only: append_Nil)
  qed
  finally show ?thesis .
qed

lemma indicator_match:
  assumes nt: "list_all (\<lambda>c. c \<noteq> CHR ''.'' \<and> c \<noteq> CHR ''!'' \<and> c \<noteq> CHR ''?'') y"
    and ne: "y \<noteq> []" and hd: "\<not> isspace (hd y)" and art: "\<not> after_article y"
  shows "rmatch False (indicator_pattern ind) (ind @ '' '' @ y @ ''.'', g) = [([], g(1 \<mapsto> y))]"
proof -
  have sw: "startswith (ind @ t) ind" for t :: string
    by (induction ind) simp_all
  show ?thesis
    unfolding indicator_pattern_shape rmatch.simps(5) [of False "Str ind"] rmatch_Str
    using tail_match [OF nt ne hd art, of g] sw by simp
qed

lemma search_skip:
  "\<not> startswith (c # cs) p \<Longrightarrow> search False (Seq (Str p) r) (c # cs) = search False (Seq (Str p) r) cs"
  unfolding search.simps rmatch.simps(5) [of False "Str p"] rmatch_Str by simp

lemma search_skip_many:
  "list_all (\<lambda>c. c \<noteq> a) pre \<Longrightarrow>
   search False (Seq (Str (a # p)) r) (pre @ s) = search False (Seq (Str (a # p)) r) s"
proof (induction pre)
  case Nil
  show ?case by simp
next
  case (Cons c pre)
  then have "\<not> startswith (c # (pre @ s)) (a # p)" by simp
  from search_skip [OF this] Cons show ?case by simp
qed

lemma search_here:
  "rmatch ic r (s, Map.empty) = m # ms \<Longrightarrow> search ic r s = Some (mk_match r m)"
  by (cases s) simp_all

lemma startswith_self: "startswith (sub @ post) sub"
  by (induction sub) simp_all

lemma contains_startswith: "startswith s sub \<Longrightarrow> contains s sub"
  by (cases s) (simp_all, cases sub, simp_all)

lemma contains_mid: "contains (pre @ sub @ post) sub"
  by (induction pre) (simp_all add: contains_startswith startswith_self)

lemma strip_plain: "y \<noteq> [] \<Longrightarrow> \<not> isspace (hd y) \<Longrightarrow> \<not> isspace (last y) \<Longrightarrow> strip y = y"
proof -
  assume y: "y \<noteq> []" and h: "\<not> isspace (hd y)" and l: "\<not> isspace (last y)"
  from y h have 1: "dropWhile isspace y = y" by (cases y) simp_all
  from y l have 2: "dropWhile isspace (rev y) = rev y"
    by (cases "rev y") (simp_all add: last_rev [symmetric] hd_rev)
  show ?thesis by (simp add: strip_def 1 2)
qed

lemma filler_shape:
  "filler_pattern =
     Seq (Many1 (Pos [Space]))
       (Grp 1 (Alt (Str ''especially'') (Alt (Str ''like'') (Str ''such as''))))"
  by (simp add: filler_pattern_def)

lemma filler_alts_Nil:
  "\<not> starts_filler t \<Longrightarrow>
   rmatch False (Grp 1 (Alt (Str ''especially'') (Alt (Str ''like'') (Str ''such as'')))) (t, g) = []"
  unfolding rmatch.simps(8) rmatch.simps(6) rmatch_Str by (simp add: starts_filler_def)

lemma space_led_no_filler: "led_by_space t \<Longrightarrow> \<not> starts_filler t"
proof -
  assume "led_by_space t"
  then obtain w t' where t: "t = w # t'" and w: "isspace w"
    by (cases t) (simp_all add: led_by_space_def)
  have "\<not> isspace CHR ''e''" "\<not> isspace CHR ''l''" "\<not> isspace CHR ''s''"
    by code_simp+
  with w have "w \<noteq> CHR ''e''" "w \<noteq> CHR ''l''" "w \<noteq> CHR ''s''" by auto
  then show ?thesis by (simp add: t starts_filler_def)
qed

lemma drop_in_run:
  "j < length (takeWhile P s) \<Longrightarrow> \<exists>w t. drop j s = w # t \<and> P w"
proof (induction s arbitrary: j)
  case Nil
  then show ?case by simp
next
  case (Cons c s)
  show ?case
  proof (cases j)
    case 0
    with Cons.prems show ?thesis by (simp split: if_splits)
  next
    case (Suc k)
    with Cons.prems have "k < length (takeWhile P s)" by (simp split: if_splits)
    from Cons.IH [OF this] Suc show ?thesis by simp
  qed
qed

lemma filler_no_match:
  assumes "\<not> (isspace c \<and> starts_filler (dropWhile isspace cs))"
  shows "rmatch False filler_pattern (c # cs, g) = []"
proof -
  let ?G = "Grp 1 (Alt (Str ''especially'') (Alt (Str ''like'') (Str ''such as'')))"
  define L where "L = length (takeWhile isspace (c # cs))"
  have dead: "rmatch False ?G (drop j (c # cs), g) = []" if "j \<in> set (rev [1..<Suc L])" for j
  proof (cases "j < L")
    case True
    then have "j < length (takeWhile isspace (c # cs))" by (simp add: L_def)
    from drop_in_run [OF this] have "led_by_space (drop j (c # cs))"
      by (auto simp: led_by_space_def)
    then show ?thesis by (intro filler_alts_Nil space_led_no_filler)
  next
    case False
    with that have j: "j = L" and pos: "0 < L" by auto
    have c: "isspace c"
    proof (rule ccontr)
      assume "\<not> isspace c"
      then have "L = 0" by (simp add: L_def)
      with pos show False by simp
    qed
    have "drop j (c # cs) = dropWhile isspace (c # cs)"
      unfolding j L_def by (rule dropWhile_eq_drop [symmetric])
    with c have "drop j (c # cs) = dropWhile isspace cs" by simp
    with c assms show ?thesis by (intro filler_alts_Nil) simp
  qed
  have "rmatch False filler_pattern (c # cs, g)
      = concat (map (\<lambda>j. rmatch False ?G (drop j (c # cs), g)) (rev [1..<Suc L]))"
    unfolding filler_shape rmatch.simps(5) rmatch.simps(3) space_class map_map comp_def L_def ..
  also have "\<dots> = []"
    by (rule concat_map_Nil) (rule dead)
  finally show ?thesis .
qed

lemma sub_delete_plain: "\<not> holds_filler y \<Longrightarrow> sub_delete filler_pattern y = y"
proof (induction y)
  case Nil
  show ?case by simp
next
  case (Cons c cs)
  then have "rmatch False filler_pattern (c # cs, Map.empty) = []"
    by (intro filler_no_match) simp
  with Cons show ?case by simp
qed

lemma sentence_end_no_group: "\<not> has_group n sentence_end"
  by (simp add: sentence_end_def)

lemma indicator_pattern_capture: "captures_as False 1 (\<lambda>v. True) (indicator_pattern ind)"
  unfolding indicator_pattern_shape
  by (intro captures_Seq_right captures_Seq_left captures_Grp_any sentence_end_no_group) simp

lemma favorite_pattern_shape:
  "favorite_pattern =
     Seq (Str ''favorite'')
       (Seq (Opt (Str ''ite''))
         (Seq (Str '' '')
           (Seq (Opt (Alt (Str ''is'') (Str ''are'')))
             (Seq (Many1 (Pos [Space])) (Seq (Grp 1 (Many1Lazy not_terminator)) sentence_end)))))"
  by (simp add: favorite_pattern_def)

lemma favorite_pattern_capture: "captures_as False 1 (\<lambda>v. True) favorite_pattern"
  unfolding favorite_pattern_shape
  by (intro captures_Seq_right captures_Seq_left captures_Grp_any sentence_end_no_group) simp

lemma append_new_mono: "set items \<subseteq> set (append_new items x)"
  by (auto simp: append_new_def)

lemma append_new_hit: "2 < length x \<Longrightarrow> x \<in> set (append_new items x)"
  by (auto simp: append_new_def)

lemma like_step_total:
  "\<exists>items'. like_step ml items ind = Inr items' \<and> set items \<subseteq> set items'"
proof (cases "search False (indicator_pattern ind) ml")
  case None
  then show ?thesis by (simp add: like_step_def)
next
  case (Some m)
  from search_captures [OF Some indicator_pattern_capture] obtain v where "groups m 1 = Some v"
    by blast
  with Some show ?thesis
    by (simp add: like_step_def group_strip_def append_new_mono)
qed

lemma dislike_step_total:
  "\<exists>items'. dislike_step ml items ind = Inr items' \<and> set items \<subseteq> set items'"
proof (cases "search False (indicator_pattern ind) ml")
  case None
  then show ?thesis by (simp add: dislike_step_def)
next
  case (Some m)
  from search_captures [OF Some indicator_pattern_capture] obtain v where "groups m 1 = Some v"
    by blast
  with Some show ?thesis
    by (simp add: dislike_step_def group_strip_def append_new_mono)
qed

lemma favorite_step_total: "\<exists>items'. favorite_step ml items = Inr items'"
proof (cases "search False favorite_pattern ml")
  case None
  then show ?thesis by (simp add: favorite_step_def)
next
  case (Some m)
  from search_captures [OF Some favorite_pattern_capture] obtain v where "groups m 1 = Some v"
    by blast
  with Some show ?thesis
    by (simp add: favorite_step_def group_strip_def)
qed

lemma for_each_preserves:
  assumes step: "\<And>s x. \<exists>s'. body s x = Inr s' \<and> (P s \<longrightarrow> P s')"
  shows "\<exists>s'. for_each body s xs = Inr s' \<and> (P s \<longrightarrow> P s')"
proof (induction xs arbitrary: s)
  case Nil
  show ?case by simp
next
  case (Cons x xs)
  from step [of s x] obtain s1 where 1: "body s x = Inr s1" "P s \<longrightarrow> P s1" by blast
  from Cons.IH [of s1] obtain s2 where "for_each body s1 xs = Inr s2" "P s1 \<longrightarrow> P s2" by blast
  with 1 show ?case by simp
qed

lemma for_each_reaches:
  assumes step: "\<And>s x. \<exists>s'. body s x = Inr s' \<and> (P s \<longrightarrow> P s')"
    and hit: "\<And>s. \<exists>s'. body s x0 = Inr s' \<and> P s'"
  shows "x0 \<in> set xs \<Longrightarrow> \<exists>s'. for_each body s xs = Inr s' \<and> P s'"
proof (induction xs arbitrary: s)
  case Nil
  then show ?case by simp
next
  case (Cons x xs)
  from step [of s x] obtain s1 where 1: "body s x = Inr s1" "P s \<longrightarrow> P s1" by blast
  show ?case
  proof (cases "x = x0")
    case True
    with hit [of s] 1 have "P s1" by auto
    with for_each_preserves [of body P s1 xs, OF step] 1 show ?thesis by auto
  next
    case False
    with Cons.prems have "x0 \<in> set xs" by simp
    from Cons.IH [OF this, of s1] 1 show ?thesis by simp
  qed
qed

lemma found_after:
  assumes nt: "list_all (\<lambda>c. c \<noteq> CHR ''.'' \<and> c \<noteq> CHR ''!'' \<and> c \<noteq> CHR ''?'') y"
    and ne: "y \<noteq> []" and hd: "\<not> isspace (hd y)" and art: "\<not> after_article y"
    and pre: "list_all (\<lambda>c. c \<noteq> a) pre"
  shows "search False (indicator_pattern (a # p)) (pre @ (a # p) @ '' '' @ y @ ''.'')
       = Some (mk_match (indicator_pattern (a # p)) ([], [1 \<mapsto> y]))"
proof -
  have m: "rmatch False (indicator_pattern (a # p)) ((a # p) @ '' '' @ y @ ''.'', Map.empty)
      = [([], [1 \<mapsto> y])]"
    using nt ne hd art by (rule indicator_match)
  have "search False (indicator_pattern (a # p)) (pre @ ((a # p) @ '' '' @ y @ ''.''))
      = search False (indicator_pattern (a # p)) ((a # p) @ '' '' @ y @ ''.'')"
    unfolding indicator_pattern_shape using pre by (rule search_skip_many)
  also have "\<dots> = Some (mk_match (indicator_pattern (a # p)) ([], [1 \<mapsto> y]))"
    by (rule search_here [OF m])
  finally show ?thesis .
qed

lemma plain_phrase_parts:
  assumes "plain_phrase y"
  shows "2 < length y" and "y \<noteq> []"
    and "list_all (\<lambda>c. c \<noteq> CHR ''.'' \<and> c \<noteq> CHR ''!'' \<and> c \<noteq> CHR ''?'') y"
    and "\<not> isspace (hd y)" and "\<not> isspace (last y)" and "\<not> after_article y"
    and "\<not> holds_filler y"
  using assms by (auto simp: plain_phrase_def)

lemma like_hit:
  assumes "plain_phrase y"
  shows "like_step (''i don't like '' @ y @ ''.'') items ''like'' = Inr (append_new items y)"
proof -
  note p = plain_phrase_parts [OF assms]
  have c: "contains (''i don't '' @ ''like'' @ '' '' @ y @ ''.'') ''like''"
    by (rule contains_mid)
  have s: "search False (indicator_pattern ''like'') (''i don't '' @ ''like'' @ '' '' @ y @ ''.'')
      = Some (mk_match (indicator_pattern ''like'') ([], [1 \<mapsto> y]))"
    using p(3,2,4,6) by (rule found_after) simp
  have g: "group_strip (mk_match (indicator_pattern ''like'') ([], [1 \<mapsto> y])) 1 = Inr y"
    using strip_plain [OF p(2,4,5)] by (simp add: group_strip_def mk_match_def)
  have e: "''i don't like '' @ y @ ''.'' = ''i don't '' @ ''like'' @ '' '' @ y @ ''.''"
    by simp
  show ?thesis
    unfolding e like_step_def using c s g sub_delete_plain [OF p(7)]
    by (simp del: contains.simps search.simps append.simps)
qed

lemma dislike_hit:
  assumes "plain_phrase y"
  shows "dislike_step (''i don't like '' @ y @ ''.'') items ''don't like'' = Inr (append_new items y)"
proof -
  note p = plain_phrase_parts [OF assms]
  have c: "contains (''i '' @ ''don't like'' @ '' '' @ y @ ''.'') ''don't like''"
    by (rule contains_mid)
  have s: "search False (indicator_pattern ''don't like'')
        (''i '' @ ''don't like'' @ '' '' @ y @ ''.'')
      = Some (mk_match (indicator_pattern ''don't like'') ([], [1 \<mapsto> y]))"
    using p(3,2,4,6) by (rule found_after) simp
  have g: "group_strip (mk_match (indicator_pattern ''don't like'') ([], [1 \<mapsto> y])) 1 = Inr y"
    using strip_plain [OF p(2,4,5)] by (simp add: group_strip_def mk_match_def)
  have e: "''i don't like '' @ y @ ''.'' = ''i '' @ ''don't like'' @ '' '' @ y @ ''.''"
    by simp
  show ?thesis
    unfolding e dislike_step_def using c s g
    by (simp del: contains.simps search.simps append.simps)
qed

lemma lower_message:
  "lower (''I don't like '' @ x @ ''.'') = ''i don't like '' @ lower x @ ''.''"
proof -
  have "lower ''I don't like '' = ''i don't like ''" "lower ''.'' = ''.''"
    by code_simp+
  then show ?thesis by (simp add: lower_def)
qed

lemma preference_step_keeps:
  "\<exists>p'. preference_step p m = Inr p' \<and>
     (y \<in> set (likes p) \<and> y \<in> set (dislikes p) \<longrightarrow> y \<in> set (likes p') \<and> y \<in> set (dislikes p'))"
proof -
  have l: "\<exists>s'. like_step (lower m) s x = Inr s' \<and> (y \<in> set s \<longrightarrow> y \<in> set s')" for s x
    using like_step_total [of "lower m" s x] by auto
  have d: "\<exists>s'. dislike_step (lower m) s x = Inr s' \<and> (y \<in> set s \<longrightarrow> y \<in> set s')" for s x
    using dislike_step_total [of "lower m" s x] by auto
  from for_each_preserves [of "like_step (lower m)" "\<lambda>s. y \<in> set s" "likes p" like_indicators, OF l]
  obtain ls where ls: "for_each (like_step (lower m)) (likes p) like_indicators = Inr ls"
    "y \<in> set (likes p) \<longrightarrow> y \<in> set ls" by blast
  from for_each_preserves [of "dislike_step (lower m)" "\<lambda>s. y \<in> set s" "dislikes p"
      dislike_indicators, OF d]
  obtain ds where ds: "for_each (dislike_step (lower m)) (dislikes p) dislike_indicators = Inr ds"
    "y \<in> set (dislikes p) \<longrightarrow> y \<in> set ds" by blast
  from favorite_step_total [of "lower m" "favorites p"]
  obtain fs where fs: "favorite_step (lower m) (favorites p) = Inr fs" by blast
  from ls ds fs show ?thesis
    by (simp add: preference_step_def Let_def)
qed

lemma preference_step_hit:
  assumes "plain_phrase (lower x)"
  shows "\<exists>p'. preference_step p (''I don't like '' @ x @ ''.'') = Inr p' \<and>
     lower x \<in> set (likes p') \<and> lower x \<in> set (dislikes p')"
proof -
  let ?ml = "''i don't like '' @ lower x @ ''.''"
  let ?P = "\<lambda>s. lower x \<in> set s"
  from plain_phrase_parts(1) [OF assms] have len: "2 < length (lower x)" .
  have l: "\<exists>s'. like_step ?ml s i = Inr s' \<and> (?P s \<longrightarrow> ?P s')" for s i
    using like_step_total [of ?ml s i] by auto
  have d: "\<exists>s'. dislike_step ?ml s i = Inr s' \<and> (?P s \<longrightarrow> ?P s')" for s i
    using dislike_step_total [of ?ml s i] by auto
  have lh: "\<exists>s'. like_step ?ml s ''like'' = Inr s' \<and> ?P s'" for s
    using like_hit [OF assms, of s] append_new_hit [OF len, of s] by simp
  have dh: "\<exists>s'. dislike_step ?ml s ''don't like'' = Inr s' \<and> ?P s'" for s
    using dislike_hit [OF assms, of s] append_new_hit [OF len, of s] by simp
  have li: "''like'' \<in> set like_indicators"
    by (simp add: like_indicators_def)
  have di: "''don't like'' \<in> set dislike_indicators"
    by (simp add: dislike_indicators_def)
  from for_each_reaches [of "like_step ?ml" ?P "''like''" like_indicators "likes p", OF l lh li]
  obtain ls where ls: "for_each (like_step ?ml) (likes p) like_indicators = Inr ls" "?P ls"
    by blast
  from for_each_reaches [of "dislike_step ?ml" ?P "''don't like''" dislike_indicators "dislikes p",
      OF d dh di]
  obtain ds where ds: "for_each (dislike_step ?ml) (dislikes p) dislike_indicators = Inr ds" "?P ds"
    by blast
  from favorite_step_total [of ?ml "favorites p"]
  obtain fs where fs: "favorite_step ?ml (favorites p) = Inr fs" by blast
  from ls ds fs show ?thesis
    unfolding preference_step_def lower_message Let_def by simp
qed

text \<open>
  Claim C10, as amended. In every list of messages that holds a message \<open>I don't like
  X.\<close> whose lowercased X is a plain phrase, \<open>extract_preferences\<close> returns a record
  whose likes and whose dislikes both contain the lowercased X: \<open>like\<close> is a like
  indicator and occurs inside the dislike indicator \<open>don't like\<close>.
\<close>

theorem dont_like_in_both_lists:
  assumes "plain_phrase (lower x)"
  shows "\<exists>p. extract_preferences (before @ [''I don't like '' @ x @ ''.''] @ after) = Inr p \<and>
     lower x \<in> set (likes p) \<and> lower x \<in> set (dislikes p)"
proof -
  let ?P = "\<lambda>p. lower x \<in> set (likes p) \<and> lower x \<in> set (dislikes p)"
  have step: "\<exists>p'. preference_step p m = Inr p' \<and> (?P p \<longrightarrow> ?P p')" for p m
    by (rule preference_step_keeps)
  have hit: "\<exists>p'. preference_step p (''I don't like '' @ x @ ''.'') = Inr p' \<and> ?P p'" for p
    using preference_step_hit [OF assms, of p] by simp
  have mem: "''I don't like '' @ x @ ''.'' \<in> set (before @ [''I don't like '' @ x @ ''.''] @ after)"
    by simp
  from for_each_reaches [of preference_step ?P _ _ "\<lparr>likes = [], dislikes = [], favorites = []\<rparr>",
      OF step hit mem]
  show ?thesis
    unfolding extract_preferences_def .
qed

theorem dont_like_in_both_lists_witness:
  "\<exists>p. extract_preferences [''I don't like crowded places.''] = Inr p \<and>
     ''crowded places'' \<in> set (likes p) \<and> ''crowded places'' \<in> set (dislikes p)"
proof -
  have l: "lower ''crowded places'' = ''crowded places''"
    by code_simp
  have "plain_phrase ''crowded places''"
    by code_simp
  with l have "plain_phrase (lower ''crowded places'')"
    by simp
  from dont_like_in_both_lists [OF this, of "[]" "[]"] show ?thesis
    unfolding l by simp
qed

text \<open>
  The claim C10 as stated fails for X = \<open>the TV\<close>, which is longer than 2 characters:
  the article is skipped, the phrase left is \<open>tv\<close>, and nothing is appended to either
  list.
\<close>

theorem dont_like_the_tv:
  "extract_preferences [''I don't like '' @ ''the TV'' @ ''.'']
     = Inr \<lparr>likes = [], dislikes = [], favorites = []\<rparr> \<and>
   2 < length ''the TV''"
  by code_simp

end
